theory Spec2Isabelle
  imports Main "HOL-Library.Word"
begin

section \<open>The mumule thread pool (src/mumule.h)\<close>

text \<open>
  The pool of \<^verbatim>\<open>src/mumule.h\<close> is modelled as a transition system whose steps are the
  individual operations on shared memory and on the synchronisation primitives (an atomic
  load, store, fetch-add or compare-and-swap, a mutex lock or unlock, a condition wait,
  signal or broadcast, a thread creation or join). Computation on locals is attached to the
  shared operation before it. A schedule is the list of the threads that move, one operation
  each; the atomics are sequentially consistent.

  \<^verbatim>\<open>size_t\<close> is a 64-bit word (LP64).
\<close>

type_synonym size_t = "64 word"

text \<open>\<^verbatim>\<open>enum { mumule_max_threads = 8 };\<close>\<close>

definition mumule_max_threads :: nat where
  "mumule_max_threads = 8"

text \<open>A thread of the program: a thread that calls the interface, or a worker of the pool.\<close>

datatype thread_id = Dispatcher nat | WorkerT nat

subsection \<open>The worker thread and the pool\<close>

text \<open>
  The places of \<^verbatim>\<open>mule_thread\<close> (lines 93-150), each named after the operation the worker
  runs next. \<open>W_None\<close> is a slot of \<^verbatim>\<open>threads[]\<close> with no thread, \<open>W_Waiting\<close> a worker
  blocked inside \<^verbatim>\<open>cnd_wait\<close>, \<open>W_Exited\<close> a worker that returned.
\<close>

datatype wpc =
    W_None
  | W_Start
  | W_LoadQueued
  | W_LoadProcessing
  | W_Lock
  | W_LoadRunning
  | W_UnlockExit
  | W_CndWait
  | W_Waiting
  | W_Unlock
  | W_CAS
  | W_Kernel
  | W_FetchAdd
  | W_Signal
  | W_DecRunning
  | W_Exited

text \<open>
  \<^verbatim>\<open>struct mu_thread { mu_mule *mule; size_t idx; thrd_t thread; }\<close>: the thread handle
  stands for the thread itself, its place and the locals
  \<^verbatim>\<open>queued, processing, workitem, processed\<close> of \<^verbatim>\<open>mule_thread\<close>.
\<close>

record mu_thread =
  idx :: size_t
  wpc :: wpc
  w_queued :: size_t
  w_processing :: size_t
  w_workitem :: size_t
  w_processed :: size_t

text \<open>
  \<^verbatim>\<open>struct mu_mule\<close>. The mutex is its owner, a condition variable the list of the threads
  blocked on it. \<open>destroyed\<close> records that \<^verbatim>\<open>mule_destroy\<close> released the primitives.
\<close>

record mu_mule =
  running :: bool
  queued :: size_t
  processing :: size_t
  processed :: size_t
  mutex :: "thread_id option"
  wake_dispatcher :: "thread_id list"
  wake_worker :: "thread_id list"
  userdata :: nat
  kernel :: nat
  num_threads :: size_t
  threads_running :: size_t
  threads :: "mu_thread list"
  destroyed :: bool

text \<open>
  \<^verbatim>\<open>mule_init\<close> (lines 82-91): \<^verbatim>\<open>memset\<close> to zero, then the three fields and the three
  primitives. There is no other statement in the function.
\<close>

definition zero_thread :: mu_thread where
  "zero_thread = \<lparr>idx = 0, wpc = W_None, w_queued = 0, w_processing = 0,
     w_workitem = 0, w_processed = 0\<rparr>"

definition mule_init :: "size_t \<Rightarrow> nat \<Rightarrow> nat \<Rightarrow> mu_mule" where
  "mule_init n k u =
     \<lparr>running = False, queued = 0, processing = 0, processed = 0,
      mutex = None, wake_dispatcher = [], wake_worker = [],
      userdata = u, kernel = k, num_threads = n, threads_running = 0,
      threads = replicate mumule_max_threads zero_thread, destroyed = False\<rparr>"

text \<open>
  One operation of the worker \<open>me\<close> at its place, on its locals and the pool: the new locals,
  the new pool and the kernel invocations made, (thread index, work item). \<open>None\<close>: the
  worker cannot move (it waits for the mutex or for a wake-up, or it does not run).

  \<^item> \<open>W_Start\<close>: line 103.
  \<^item> \<open>W_LoadQueued\<close>: line 107.
  \<^item> \<open>W_LoadProcessing\<close>: line 108, with the test of line 111 and the assignment of line 126.
  \<^item> \<open>W_Lock\<close>, \<open>W_LoadRunning\<close>, \<open>W_UnlockExit\<close>: lines 113-116.
  \<^item> \<open>W_CndWait\<close>, \<open>W_Waiting\<close>: \<^verbatim>\<open>cnd_wait\<close> of line 119 gives up the mutex and blocks;
    once woken it returns with the mutex taken again.
  \<^item> \<open>W_Unlock\<close>: lines 120-122.
  \<^item> \<open>W_CAS\<close>: lines 127-128. On failure the value read is stored in \<^verbatim>\<open>processing\<close>.
  \<^item> \<open>W_Kernel\<close>: line 129.
  \<^item> \<open>W_FetchAdd\<close>: line 130, with the test of line 133.
  \<^item> \<open>W_Signal\<close>: line 141, which unblocks one thread waiting on \<^verbatim>\<open>wake_dispatcher\<close>.
  \<^item> \<open>W_DecRunning\<close>: line 145.
\<close>

fun thread_step ::
  "thread_id \<Rightarrow> wpc \<Rightarrow> mu_thread \<Rightarrow> mu_mule \<Rightarrow> (mu_thread \<times> mu_mule \<times> (size_t \<times> size_t) list) option"
where
  "thread_step me W_None w m = None"
| "thread_step me W_Start w m =
     Some (w\<lparr>wpc := W_LoadQueued\<rparr>, m\<lparr>threads_running := threads_running m + 1\<rparr>, [])"
| "thread_step me W_LoadQueued w m =
     Some (w\<lparr>w_queued := queued m, wpc := W_LoadProcessing\<rparr>, m, [])"
| "thread_step me W_LoadProcessing w m =
     (if processing m = w_queued w
      then Some (w\<lparr>w_processing := processing m, wpc := W_Lock\<rparr>, m, [])
      else Some (w\<lparr>w_processing := processing m, w_workitem := processing m + 1,
                  wpc := W_CAS\<rparr>, m, []))"
| "thread_step me W_Lock w m =
     (if mutex m = None then Some (w\<lparr>wpc := W_LoadRunning\<rparr>, m\<lparr>mutex := Some me\<rparr>, [])
      else None)"
| "thread_step me W_LoadRunning w m =
     (if \<not> running m then Some (w\<lparr>wpc := W_UnlockExit\<rparr>, m, [])
      else Some (w\<lparr>wpc := W_CndWait\<rparr>, m, []))"
| "thread_step me W_UnlockExit w m =
     Some (w\<lparr>wpc := W_DecRunning\<rparr>, m\<lparr>mutex := None\<rparr>, [])"
| "thread_step me W_CndWait w m =
     Some (w\<lparr>wpc := W_Waiting\<rparr>, m\<lparr>mutex := None, wake_worker := wake_worker m @ [me]\<rparr>, [])"
| "thread_step me W_Waiting w m =
     (if me \<notin> set (wake_worker m) \<and> mutex m = None
      then Some (w\<lparr>wpc := W_Unlock\<rparr>, m\<lparr>mutex := Some me\<rparr>, [])
      else None)"
| "thread_step me W_Unlock w m =
     Some (w\<lparr>wpc := W_LoadQueued\<rparr>, m\<lparr>mutex := None\<rparr>, [])"
| "thread_step me W_CAS w m =
     (if processing m = w_processing w
      then Some (w\<lparr>wpc := W_Kernel\<rparr>, m\<lparr>processing := w_workitem w\<rparr>, [])
      else Some (w\<lparr>w_processing := processing m, wpc := W_LoadQueued\<rparr>, m, []))"
| "thread_step me W_Kernel w m =
     Some (w\<lparr>wpc := W_FetchAdd\<rparr>, m, [(idx w, w_workitem w)])"
| "thread_step me W_FetchAdd w m =
     (if processed m + 1 = w_queued w
      then Some (w\<lparr>w_processed := processed m, wpc := W_Signal\<rparr>,
                 m\<lparr>processed := processed m + 1\<rparr>, [])
      else Some (w\<lparr>w_processed := processed m, wpc := W_LoadQueued\<rparr>,
                 m\<lparr>processed := processed m + 1\<rparr>, []))"
| "thread_step me W_Signal w m =
     Some (w\<lparr>wpc := W_LoadQueued\<rparr>, m\<lparr>wake_dispatcher := tl (wake_dispatcher m)\<rparr>, [])"
| "thread_step me W_DecRunning w m =
     Some (w\<lparr>wpc := W_Exited\<rparr>, m\<lparr>threads_running := threads_running m - 1\<rparr>, [])"
| "thread_step me W_Exited w m = None"

text \<open>The worker of slot \<open>i\<close> runs one operation of \<^verbatim>\<open>mule_thread\<close>.\<close>

definition mule_thread :: "nat \<Rightarrow> mu_mule \<Rightarrow> (mu_mule \<times> (size_t \<times> size_t) list) option" where
  "mule_thread i m =
     (if i < length (threads m)
      then (case thread_step (WorkerT i) (wpc (threads m ! i)) (threads m ! i) m of
              None \<Rightarrow> None
            | Some (w', m', ev) \<Rightarrow> Some (m'\<lparr>threads := (threads m')[i := w']\<rparr>, ev))
      else None)"

subsection \<open>The threads that call the interface\<close>

text \<open>
  A calling thread runs a list of calls. \<^verbatim>\<open>mule_init\<close> is not among them: it builds the
  pool before any thread uses it.
\<close>

datatype call = Submit size_t | Launch | Synchronize | Reset | Shutdown | Destroy

text \<open>What a call returns: the \<^verbatim>\<open>int\<close> of the lifecycle functions, the \<^verbatim>\<open>size_t\<close> of \<^verbatim>\<open>mule_submit\<close>.\<close>

datatype retval = RetInt int | RetSize size_t

text \<open>
  The places of the interface functions. \<open>C_Idle\<close> is between two calls, \<open>C_Undefined\<close> after
  the write past the end of \<^verbatim>\<open>threads[]\<close> in \<^verbatim>\<open>mule_launch\<close>, \<open>Sy_Waiting\<close> inside
  \<^verbatim>\<open>cnd_timedwait\<close>. \<open>La_Create i\<close> and \<open>Sh_Join i\<close> are the loops over the threads at index \<open>i\<close>.
\<close>

datatype cpc =
    C_Idle
  | C_Undefined
  | Sub_FetchAdd size_t
  | Sub_Broadcast size_t
  | La_LoadRunning
  | La_Assign
  | La_StoreRunning
  | La_Create nat
  | Sy_Broadcast
  | Sy_Lock
  | Sy_Clock
  | Sy_LoadQueued
  | Sy_LoadProcessed
  | Sy_TimedWait
  | Sy_Waiting
  | Sy_Unlock
  | Re_StoreQueued
  | Re_StoreProcessing
  | Re_StoreProcessed
  | Re_Broadcast
  | Sh_LoadRunning
  | Sh_Lock
  | Sh_StoreRunning
  | Sh_Unlock
  | Sh_Broadcast
  | Sh_Join nat
  | De_Destroy

text \<open>
  A calling thread: the calls it still has to make, its place, the places to come back to
  (\<^verbatim>\<open>mule_reset\<close> calls \<^verbatim>\<open>mule_synchronize\<close>, \<^verbatim>\<open>mule_destroy\<close> calls \<^verbatim>\<open>mule_shutdown\<close>), the
  locals \<^verbatim>\<open>idx\<close> of \<^verbatim>\<open>mule_submit\<close> and \<^verbatim>\<open>queued, processed\<close> of \<^verbatim>\<open>mule_synchronize\<close>, and the
  values its calls returned, in order.
\<close>

record caller =
  prog :: "call list"
  cpc :: cpc
  stack :: "cpc list"
  c_idx :: size_t
  c_queued :: size_t
  c_processed :: size_t
  rets :: "(call \<times> retval) list"

definition new_caller :: "call list \<Rightarrow> caller" where
  "new_caller p = \<lparr>prog = p, cpc = C_Idle, stack = [], c_idx = 0, c_queued = 0,
     c_processed = 0, rets = []\<rparr>"

text \<open>
  \<^verbatim>\<open>return v\<close> from the function \<open>f\<close>: to the caller's own program, which keeps the value, or
  into the function that called \<open>f\<close>, which drops it (lines 214 and 248).
\<close>

definition ret :: "call \<Rightarrow> retval \<Rightarrow> caller \<Rightarrow> caller" where
  "ret f v c =
     (case stack c of
        [] \<Rightarrow> c\<lparr>cpc := C_Idle, rets := rets c @ [(f, v)]\<rparr>
      | r # rs \<Rightarrow> c\<lparr>cpc := r, stack := rs\<rparr>)"

text \<open>Entering a function of the interface.\<close>

fun enter :: "call \<Rightarrow> caller \<Rightarrow> caller" where
  "enter (Submit n) c = c\<lparr>cpc := Sub_FetchAdd n\<rparr>"
| "enter Launch c = c\<lparr>cpc := La_LoadRunning\<rparr>"
| "enter Synchronize c = c\<lparr>cpc := Sy_Broadcast\<rparr>"
| "enter Reset c = c\<lparr>cpc := Sy_Broadcast, stack := Re_StoreQueued # stack c\<rparr>"
| "enter Shutdown c = c\<lparr>cpc := Sh_LoadRunning\<rparr>"
| "enter Destroy c = c\<lparr>cpc := Sh_LoadRunning, stack := De_Destroy # stack c\<rparr>"

text \<open>Lines 165-168 of \<^verbatim>\<open>mule_launch\<close>: \<^verbatim>\<open>threads[idx].idx = idx\<close> for \<^verbatim>\<open>idx < num_threads\<close>.\<close>

definition assign_idx :: "nat \<Rightarrow> mu_thread list \<Rightarrow> mu_thread list" where
  "assign_idx n ts =
     map (\<lambda>(i, t). if i < n then t\<lparr>idx := of_nat i\<rparr> else t) (enumerate 0 ts)"

text \<open>
  One operation of the calling thread \<open>me\<close> at its place.

  \<^item> \<^verbatim>\<open>mule_submit\<close> (lines 152-157): \<open>Sub_FetchAdd\<close> is line 154, \<open>Sub_Broadcast\<close> lines 155-156.
  \<^item> \<^verbatim>\<open>mule_launch\<close> (lines 159-176): \<open>La_LoadRunning\<close> is line 161, \<open>La_Assign\<close> the loop of
    lines 165-168, which writes past \<^verbatim>\<open>threads[]\<close> when \<^verbatim>\<open>num_threads\<close> exceeds
    \<^verbatim>\<open>mumule_max_threads\<close>, \<open>La_StoreRunning\<close> lines 169-170, \<open>La_Create i\<close> the loop of lines
    172-174 and the return of line 175.
  \<^item> \<^verbatim>\<open>mule_synchronize\<close> (lines 178-210): \<open>Sy_Broadcast\<close> is line 184, \<open>Sy_Lock\<close> line 187,
    \<open>Sy_Clock\<close> lines 189-191, \<open>Sy_LoadQueued\<close> line 193, \<open>Sy_LoadProcessed\<close> line 194 with the
    test of line 195, \<open>Sy_TimedWait\<close> and \<open>Sy_Waiting\<close> the \<^verbatim>\<open>cnd_timedwait\<close> of line 202,
    \<open>Sy_Unlock\<close> lines 207-209.
  \<^item> \<^verbatim>\<open>mule_reset\<close> (lines 212-223): after \<^verbatim>\<open>mule_synchronize\<close>, one place for each of the
    lines 216, 217, 218 and 220-222.
  \<^item> \<^verbatim>\<open>mule_shutdown\<close> (lines 225-244): \<open>Sh_LoadRunning\<close> is line 227, then lines 232, 233, 234,
    235, and \<open>Sh_Join i\<close> the loop of lines 238-241 with the return of line 243;
    \<^verbatim>\<open>thrd_join\<close> blocks until the thread has returned.
  \<^item> \<^verbatim>\<open>mule_destroy\<close> (lines 246-255): after \<^verbatim>\<open>mule_shutdown\<close>, \<open>De_Destroy\<close> is lines 250-254.
\<close>

fun caller_step :: "thread_id \<Rightarrow> cpc \<Rightarrow> caller \<Rightarrow> mu_mule \<Rightarrow> (caller \<times> mu_mule) option" where
  "caller_step me C_Idle c m =
     (case prog c of [] \<Rightarrow> None | k # ks \<Rightarrow> Some (enter k (c\<lparr>prog := ks\<rparr>), m))"
| "caller_step me C_Undefined c m = None"
| "caller_step me (Sub_FetchAdd n) c m =
     Some (c\<lparr>c_idx := queued m, cpc := Sub_Broadcast n\<rparr>, m\<lparr>queued := queued m + n\<rparr>)"
| "caller_step me (Sub_Broadcast n) c m =
     Some (ret (Submit n) (RetSize (c_idx c + n)) c, m\<lparr>wake_worker := []\<rparr>)"
| "caller_step me La_LoadRunning c m =
     (if running m then Some (ret Launch (RetInt 0) c, m)
      else Some (c\<lparr>cpc := La_Assign\<rparr>, m))"
| "caller_step me La_Assign c m =
     (if mumule_max_threads < unat (num_threads m) then Some (c\<lparr>cpc := C_Undefined\<rparr>, m)
      else Some (c\<lparr>cpc := La_StoreRunning\<rparr>,
                 m\<lparr>threads := assign_idx (unat (num_threads m)) (threads m)\<rparr>))"
| "caller_step me La_StoreRunning c m =
     Some (c\<lparr>cpc := La_Create 0\<rparr>, m\<lparr>running := True\<rparr>)"
| "caller_step me (La_Create i) c m =
     (if i < unat (num_threads m)
      then Some (c\<lparr>cpc := La_Create (Suc i)\<rparr>,
                 m\<lparr>threads := (threads m)[i := (threads m ! i)\<lparr>wpc := W_Start\<rparr>]\<rparr>)
      else Some (ret Launch (RetInt 0) c, m))"
| "caller_step me Sy_Broadcast c m =
     Some (c\<lparr>cpc := Sy_Lock\<rparr>, m\<lparr>wake_worker := []\<rparr>)"
| "caller_step me Sy_Lock c m =
     (if mutex m = None then Some (c\<lparr>cpc := Sy_Clock\<rparr>, m\<lparr>mutex := Some me\<rparr>) else None)"
| "caller_step me Sy_Clock c m =
     Some (c\<lparr>cpc := Sy_LoadQueued\<rparr>, m)"
| "caller_step me Sy_LoadQueued c m =
     Some (c\<lparr>c_queued := queued m, cpc := Sy_LoadProcessed\<rparr>, m)"
| "caller_step me Sy_LoadProcessed c m =
     (if processed m < c_queued c
      then Some (c\<lparr>c_processed := processed m, cpc := Sy_TimedWait\<rparr>, m)
      else Some (c\<lparr>c_processed := processed m, cpc := Sy_Unlock\<rparr>, m))"
| "caller_step me Sy_TimedWait c m =
     Some (c\<lparr>cpc := Sy_Waiting\<rparr>,
           m\<lparr>mutex := None, wake_dispatcher := wake_dispatcher m @ [me]\<rparr>)"
| "caller_step me Sy_Waiting c m =
     (if me \<notin> set (wake_dispatcher m) \<and> mutex m = None
      then Some (c\<lparr>cpc := Sy_Clock\<rparr>, m\<lparr>mutex := Some me\<rparr>)
      else None)"
| "caller_step me Sy_Unlock c m =
     Some (ret Synchronize (RetInt 0) c, m\<lparr>mutex := None\<rparr>)"
| "caller_step me Re_StoreQueued c m =
     Some (c\<lparr>cpc := Re_StoreProcessing\<rparr>, m\<lparr>queued := 0\<rparr>)"
| "caller_step me Re_StoreProcessing c m =
     Some (c\<lparr>cpc := Re_StoreProcessed\<rparr>, m\<lparr>processing := 0\<rparr>)"
| "caller_step me Re_StoreProcessed c m =
     Some (c\<lparr>cpc := Re_Broadcast\<rparr>, m\<lparr>processed := 0\<rparr>)"
| "caller_step me Re_Broadcast c m =
     Some (ret Reset (RetInt 0) c, m\<lparr>wake_worker := []\<rparr>)"
| "caller_step me Sh_LoadRunning c m =
     (if \<not> running m then Some (ret Shutdown (RetInt 0) c, m)
      else Some (c\<lparr>cpc := Sh_Lock\<rparr>, m))"
| "caller_step me Sh_Lock c m =
     (if mutex m = None then Some (c\<lparr>cpc := Sh_StoreRunning\<rparr>, m\<lparr>mutex := Some me\<rparr>)
      else None)"
| "caller_step me Sh_StoreRunning c m =
     Some (c\<lparr>cpc := Sh_Unlock\<rparr>, m\<lparr>running := False\<rparr>)"
| "caller_step me Sh_Unlock c m =
     Some (c\<lparr>cpc := Sh_Broadcast\<rparr>, m\<lparr>mutex := None\<rparr>)"
| "caller_step me Sh_Broadcast c m =
     Some (c\<lparr>cpc := Sh_Join 0\<rparr>, m\<lparr>wake_worker := []\<rparr>)"
| "caller_step me (Sh_Join i) c m =
     (if i < unat (num_threads m)
      then (if i < length (threads m) \<and> wpc (threads m ! i) = W_Exited
            then Some (c\<lparr>cpc := Sh_Join (Suc i)\<rparr>, m)
            else None)
      else Some (ret Shutdown (RetInt 0) c, m))"
| "caller_step me De_Destroy c m =
     Some (ret Destroy (RetInt 0) c, m\<lparr>destroyed := True\<rparr>)"

subsection \<open>The program: the pool, its callers, and the schedule\<close>

text \<open>
  The whole program: the pool, the calling threads, the kernel invocations made so far
  (thread index, work item), and whether an \<^verbatim>\<open>assert\<close> has stopped the process.
\<close>

record config =
  pool :: mu_mule
  callers :: "caller list"
  klog :: "(size_t \<times> size_t) list"
  aborted :: bool

text \<open>The program after \<^verbatim>\<open>mule_init(&mule, n, k, u)\<close>, with one calling thread for each program.\<close>

definition boot :: "size_t \<Rightarrow> nat \<Rightarrow> nat \<Rightarrow> call list list \<Rightarrow> config" where
  "boot n k u ps =
     \<lparr>pool = mule_init n k u, callers = map new_caller ps, klog = [], aborted = False\<rparr>"

text \<open>
  What a schedule names at each position:
  \<^item> \<open>Caller j\<close>: the calling thread \<open>j\<close> runs its next operation;
  \<^item> \<open>Worker i\<close>: the worker of slot \<open>i\<close> runs its next operation;
  \<^item> \<open>CasFail i\<close>: the \<^verbatim>\<open>atomic_compare_exchange_weak\<close> of worker \<open>i\<close> fails spuriously;
  \<^item> \<open>Wake i\<close>: worker \<open>i\<close>, blocked in \<^verbatim>\<open>cnd_wait\<close>, wakes up spuriously;
  \<^item> \<open>Timeout j\<close>: the \<^verbatim>\<open>cnd_timedwait\<close> of the calling thread \<open>j\<close> times out (or wakes up
    spuriously);
  \<^item> \<open>Abort j\<close>: an \<^verbatim>\<open>assert\<close> of the calling thread \<open>j\<close> fails (\<^verbatim>\<open>thrd_create\<close>,
    \<^verbatim>\<open>clock_gettime\<close> or \<^verbatim>\<open>thrd_join\<close> reports an error) and the process stops.
\<close>

datatype label = Caller nat | Worker nat | CasFail nat | Wake nat | Timeout nat | Abort nat

definition cas_fail :: "nat \<Rightarrow> mu_mule \<Rightarrow> mu_mule option" where
  "cas_fail i m =
     (if i < length (threads m) \<and> wpc (threads m ! i) = W_CAS
      then Some (m\<lparr>threads := (threads m)[i := (threads m ! i)
              \<lparr>w_processing := processing m, wpc := W_LoadQueued\<rparr>]\<rparr>)
      else None)"

definition wake :: "nat \<Rightarrow> mu_mule \<Rightarrow> mu_mule option" where
  "wake i m =
     (if i < length (threads m) \<and> wpc (threads m ! i) = W_Waiting
         \<and> WorkerT i \<in> set (wake_worker m)
      then Some (m\<lparr>wake_worker := removeAll (WorkerT i) (wake_worker m)\<rparr>)
      else None)"

definition timeout :: "nat \<Rightarrow> caller \<Rightarrow> mu_mule \<Rightarrow> mu_mule option" where
  "timeout j c m =
     (if cpc c = Sy_Waiting \<and> Dispatcher j \<in> set (wake_dispatcher m)
      then Some (m\<lparr>wake_dispatcher := removeAll (Dispatcher j) (wake_dispatcher m)\<rparr>)
      else None)"

fun can_abort :: "cpc \<Rightarrow> mu_mule \<Rightarrow> bool" where
  "can_abort (La_Create i) m = (i < unat (num_threads m))"
| "can_abort Sy_Clock m = True"
| "can_abort (Sh_Join i) m = (i < unat (num_threads m))"
| "can_abort p m = False"

fun step :: "label \<Rightarrow> config \<Rightarrow> config option" where
  "step (Caller j) s =
     (if aborted s \<or> \<not> j < length (callers s) then None
      else (case caller_step (Dispatcher j) (cpc (callers s ! j)) (callers s ! j) (pool s) of
              None \<Rightarrow> None
            | Some (c', m') \<Rightarrow> Some (s\<lparr>pool := m', callers := (callers s)[j := c']\<rparr>)))"
| "step (Worker i) s =
     (if aborted s then None
      else (case mule_thread i (pool s) of
              None \<Rightarrow> None
            | Some (m', ev) \<Rightarrow> Some (s\<lparr>pool := m', klog := klog s @ ev\<rparr>)))"
| "step (CasFail i) s =
     (if aborted s then None
      else (case cas_fail i (pool s) of None \<Rightarrow> None | Some m' \<Rightarrow> Some (s\<lparr>pool := m'\<rparr>)))"
| "step (Wake i) s =
     (if aborted s then None
      else (case wake i (pool s) of None \<Rightarrow> None | Some m' \<Rightarrow> Some (s\<lparr>pool := m'\<rparr>)))"
| "step (Timeout j) s =
     (if aborted s \<or> \<not> j < length (callers s) then None
      else (case timeout j (callers s ! j) (pool s) of
              None \<Rightarrow> None
            | Some m' \<Rightarrow> Some (s\<lparr>pool := m'\<rparr>)))"
| "step (Abort j) s =
     (if aborted s \<or> \<not> j < length (callers s) then None
      else if can_abort (cpc (callers s ! j)) (pool s) then Some (s\<lparr>aborted := True\<rparr>)
      else None)"

text \<open>Running a schedule: \<open>None\<close> when it names a thread that cannot move.\<close>

fun run :: "label list \<Rightarrow> config \<Rightarrow> config option" where
  "run [] s = Some s"
| "run (l # ls) s = (case step l s of None \<Rightarrow> None | Some s' \<Rightarrow> run ls s')"

subsection \<open>The test program of the repository\<close>

text \<open>
  \<^verbatim>\<open>t1\<close> of \<^verbatim>\<open>test_mumule.c\<close>: \<^verbatim>\<open>mule_init(&mule, 2, w1, NULL)\<close>, then
  \<^verbatim>\<open>mule_submit(&mule, 8)\<close>, \<^verbatim>\<open>mule_launch\<close>, \<^verbatim>\<open>mule_synchronize\<close>, \<^verbatim>\<open>mule_shutdown\<close>,
  \<^verbatim>\<open>mule_destroy\<close>, and one schedule of it: the first worker runs the eight items before
  the second one starts.
\<close>

definition t1_program :: "call list" where
  "t1_program = [Submit 8, Launch, Synchronize, Shutdown, Destroy]"

definition t1_boot :: config where
  "t1_boot = boot 2 0 0 [t1_program]"

definition t1_schedule :: "label list" where
  "t1_schedule =
     replicate 10 (Caller 0) @ replicate 42 (Worker 0) @ replicate 13 (Caller 0)
     @ replicate 6 (Worker 0) @ replicate 7 (Worker 1) @ replicate 6 (Caller 0)"

definition t1_final :: config where
  "t1_final = the (run t1_schedule t1_boot)"

subsection \<open>Predicates of the properties\<close>

text \<open>A returned value that is an \<^verbatim>\<open>int\<close> is 0 (\<^verbatim>\<open>mule_submit\<close> returns a \<^verbatim>\<open>size_t\<close>).\<close>

fun ret_ok :: "call \<times> retval \<Rightarrow> bool" where
  "ret_ok (Submit n, v) = True"
| "ret_ok (f, v) = (v = RetInt 0)"

definition rets_ok :: "caller \<Rightarrow> bool" where
  "rets_ok c = list_all ret_ok (rets c)"

text \<open>
  The items a calling thread has still to add to \<^verbatim>\<open>queued\<close>: those of the calls of
  \<^verbatim>\<open>mule_submit\<close> it has not made, and of the one it is in before its fetch-add.
\<close>

fun pending_call :: "call \<Rightarrow> size_t" where
  "pending_call (Submit n) = n"
| "pending_call f = 0"

fun pending_pc :: "cpc \<Rightarrow> size_t" where
  "pending_pc (Sub_FetchAdd n) = n"
| "pending_pc p = 0"

definition pending :: "caller \<Rightarrow> size_t" where
  "pending c = sum_list (map pending_call (prog c)) + pending_pc (cpc c)"

definition total_pending :: "config \<Rightarrow> size_t" where
  "total_pending s = sum_list (map pending (callers s))"

text \<open>A calling thread that neither is in \<^verbatim>\<open>mule_reset\<close> nor will call it.\<close>

definition no_reset :: "caller \<Rightarrow> bool" where
  "no_reset c = (Reset \<notin> set (prog c) \<and> cpc c \<noteq> Re_StoreQueued
     \<and> list_all (\<lambda>p. p = De_Destroy) (stack c))"

text \<open>Three threads that each call \<^verbatim>\<open>mule_submit(&mule, 5)\<close> once, and a schedule of them.\<close>

definition submitters_boot :: config where
  "submitters_boot = boot 2 0 0 [[Submit 5], [Submit 5], [Submit 5]]"

definition submitters_schedule :: "label list" where
  "submitters_schedule =
     [Caller 0, Caller 1, Caller 2, Caller 2, Caller 0, Caller 1, Caller 1, Caller 0, Caller 2]"

definition submitters_final :: config where
  "submitters_final = the (run submitters_schedule submitters_boot)"

text \<open>
  The three threads when the first one is at its fetch-add (line 154), and when the other
  two have moved and it is at its broadcast (lines 155-156).
\<close>

definition submitters_entered :: config where
  "submitters_entered = the (step (Caller 0) submitters_boot)"

definition submitters_between :: config where
  "submitters_between = the (run [Caller 0, Caller 1, Caller 2, Caller 2] submitters_entered)"

text \<open>A calling thread that has returned from its last call.\<close>

definition returned :: "caller \<Rightarrow> bool" where
  "returned c = (prog c = [] \<and> cpc c = C_Idle)"

text \<open>The stack of a calling thread at each place: only \<^verbatim>\<open>mule_reset\<close> and \<^verbatim>\<open>mule_destroy\<close> call on.\<close>

fun in_call :: "cpc \<Rightarrow> call option" where
  "in_call C_Idle = None"
| "in_call C_Undefined = None"
| "in_call (Sub_FetchAdd n) = Some (Submit n)"
| "in_call (Sub_Broadcast n) = Some (Submit n)"
| "in_call La_LoadRunning = Some Launch"
| "in_call La_Assign = Some Launch"
| "in_call La_StoreRunning = Some Launch"
| "in_call (La_Create i) = Some Launch"
| "in_call Sy_Broadcast = Some Synchronize"
| "in_call Sy_Lock = Some Synchronize"
| "in_call Sy_Clock = Some Synchronize"
| "in_call Sy_LoadQueued = Some Synchronize"
| "in_call Sy_LoadProcessed = Some Synchronize"
| "in_call Sy_TimedWait = Some Synchronize"
| "in_call Sy_Waiting = Some Synchronize"
| "in_call Sy_Unlock = Some Synchronize"
| "in_call Re_StoreQueued = Some Reset"
| "in_call Re_StoreProcessing = Some Reset"
| "in_call Re_StoreProcessed = Some Reset"
| "in_call Re_Broadcast = Some Reset"
| "in_call Sh_LoadRunning = Some Shutdown"
| "in_call Sh_Lock = Some Shutdown"
| "in_call Sh_StoreRunning = Some Shutdown"
| "in_call Sh_Unlock = Some Shutdown"
| "in_call Sh_Broadcast = Some Shutdown"
| "in_call (Sh_Join i) = Some Shutdown"
| "in_call De_Destroy = Some Destroy"

fun stack_for :: "call option \<Rightarrow> cpc list \<Rightarrow> bool" where
  "stack_for (Some Synchronize) st = (st = [] \<or> st = [Re_StoreQueued])"
| "stack_for (Some Shutdown) st = (st = [] \<or> st = [De_Destroy])"
| "stack_for f st = (st = [])"

definition stack_ok :: "caller \<Rightarrow> bool" where
  "stack_ok c = (cpc c = C_Undefined \<or> stack_for (in_call (cpc c)) (stack c))"

text \<open>
  At the unlock of \<^verbatim>\<open>mule_synchronize\<close> (line 207) the two values loaded last satisfy
  \<^verbatim>\<open>!(processed < queued)\<close>.
\<close>

definition sync_ok :: "caller \<Rightarrow> bool" where
  "sync_ok c = (stack_ok c \<and> (cpc c \<noteq> Sy_Unlock \<or> c_queued c \<le> c_processed c))"

text \<open>The function whose return a calling thread recorded last.\<close>

definition last_ret :: "caller \<Rightarrow> call option" where
  "last_ret c = (if rets c = [] then None else Some (fst (last (rets c))))"

text \<open>
  What the only calling thread of a pool knows of \<^verbatim>\<open>running\<close>: it is set from the store of
  \<^verbatim>\<open>mule_launch\<close> on, and after \<^verbatim>\<open>mule_launch\<close> returned; it is clear from the store of
  \<^verbatim>\<open>mule_shutdown\<close> on, and after \<^verbatim>\<open>mule_shutdown\<close> or \<^verbatim>\<open>mule_destroy\<close> returned.
\<close>

fun settled_for :: "call option \<Rightarrow> bool \<Rightarrow> bool" where
  "settled_for (Some Launch) r = r"
| "settled_for (Some Shutdown) r = (\<not> r)"
| "settled_for (Some Destroy) r = (\<not> r)"
| "settled_for f r = True"

fun owner_pc_ok :: "cpc \<Rightarrow> call option \<Rightarrow> bool \<Rightarrow> bool" where
  "owner_pc_ok C_Idle f r = settled_for f r"
| "owner_pc_ok La_LoadRunning f r = settled_for f r"
| "owner_pc_ok Sh_LoadRunning f r = settled_for f r"
| "owner_pc_ok (La_Create i) f r = r"
| "owner_pc_ok Sh_Unlock f r = (\<not> r)"
| "owner_pc_ok Sh_Broadcast f r = (\<not> r)"
| "owner_pc_ok (Sh_Join i) f r = (\<not> r)"
| "owner_pc_ok De_Destroy f r = (\<not> r)"
| "owner_pc_ok p f r = True"

definition owner_ok :: "caller \<Rightarrow> mu_mule \<Rightarrow> bool" where
  "owner_ok c m = (stack_ok c \<and> owner_pc_ok (cpc c) (last_ret c) (running m))"

text \<open>
  The places of \<^verbatim>\<open>mule_thread\<close> from the test of line 111, when it is true, to the return:
  the way out of the loop.
\<close>

fun queue_seen_empty :: "wpc \<Rightarrow> bool" where
  "queue_seen_empty W_Lock = True"
| "queue_seen_empty W_LoadRunning = True"
| "queue_seen_empty W_UnlockExit = True"
| "queue_seen_empty W_DecRunning = True"
| "queue_seen_empty W_Exited = True"
| "queue_seen_empty p = False"

definition exit_ok :: "mu_thread \<Rightarrow> bool" where
  "exit_ok w = (\<not> queue_seen_empty (wpc w) \<or> w_processing w = w_queued w)"

text \<open>
  A pool whose first worker is blocked in the \<^verbatim>\<open>cnd_wait\<close> of line 119 with no wake-up
  on its way, whose other slots hold no thread, and whose only calling thread is in the loop
  of \<^verbatim>\<open>mule_synchronize\<close> with work outstanding.
\<close>

fun is_wake :: "label \<Rightarrow> bool" where
  "is_wake (Wake i) = True"
| "is_wake l = False"

fun in_wait_loop :: "cpc \<Rightarrow> bool" where
  "in_wait_loop Sy_Clock = True"
| "in_wait_loop Sy_LoadQueued = True"
| "in_wait_loop Sy_LoadProcessed = True"
| "in_wait_loop Sy_TimedWait = True"
| "in_wait_loop Sy_Waiting = True"
| "in_wait_loop p = False"

definition worker_parked :: "config \<Rightarrow> bool" where
  "worker_parked s =
     (length (callers s) = 1 \<and> in_wait_loop (cpc (hd (callers s)))
      \<and> (cpc (hd (callers s)) \<noteq> Sy_LoadProcessed \<or> c_queued (hd (callers s)) = queued (pool s))
      \<and> processed (pool s) < queued (pool s)
      \<and> threads (pool s) \<noteq> []
      \<and> wpc (hd (threads (pool s))) = W_Waiting
      \<and> WorkerT 0 \<in> set (wake_worker (pool s))
      \<and> list_all (\<lambda>w. wpc w = W_None) (tl (threads (pool s))))"

definition frozen :: "config \<Rightarrow> config \<Rightarrow> bool" where
  "frozen s s' = (klog s' = klog s \<and> processed (pool s') = processed (pool s)
     \<and> queued (pool s') = queued (pool s) \<and> processing (pool s') = processing (pool s)
     \<and> rets (hd (callers s')) = rets (hd (callers s)))"

subsection \<open>Programs and schedules of the properties\<close>

text \<open>
  Two workers, \<^verbatim>\<open>mule_launch\<close> before \<^verbatim>\<open>mule_submit(&mule, 1)\<close>. Worker 0 loads
  \<^verbatim>\<open>queued\<close> (0) before the submission and \<^verbatim>\<open>processing\<close> after worker 1 has claimed item 1:
  \<^item> \<open>Caller 0\<close>, 7 times: \<^verbatim>\<open>mule_launch\<close> with its two \<^verbatim>\<open>thrd_create\<close>;
  \<^item> \<open>Worker 0\<close>, 2 times: line 103, and line 107, which reads \<^verbatim>\<open>queued == 0\<close>;
  \<^item> \<open>Caller 0\<close>, 3 times: \<^verbatim>\<open>mule_submit(&mule, 1)\<close>, after which \<^verbatim>\<open>queued == 1\<close>;
  \<^item> \<open>Worker 1\<close>, 4 times: lines 103, 107, 108 and the compare-and-swap of line 127, which
    sets \<^verbatim>\<open>processing\<close> to 1; the worker has not called the kernel yet;
  \<^item> \<open>Worker 0\<close>, 4 times: line 108 reads \<^verbatim>\<open>processing == 1\<close>, which differs from its \<^verbatim>\<open>queued\<close>
    of 0, so the test of line 111 fails; line 127 sets \<^verbatim>\<open>processing\<close> to 2; line 129 calls
    the kernel on item 2; line 130 sets \<^verbatim>\<open>processed\<close> to 1;
  \<^item> \<open>Caller 0\<close>, 7 times: \<^verbatim>\<open>mule_synchronize\<close> reads \<^verbatim>\<open>queued == 1\<close> and \<^verbatim>\<open>processed == 1\<close>
    and returns.
\<close>

definition race_boot :: config where
  "race_boot = boot 2 0 0 [[Launch, Submit 1, Synchronize]]"

definition race_schedule :: "label list" where
  "race_schedule =
     replicate 7 (Caller 0) @ replicate 2 (Worker 0) @ replicate 3 (Caller 0)
     @ replicate 4 (Worker 1) @ replicate 4 (Worker 0) @ replicate 7 (Caller 0)"

definition race_final :: config where
  "race_final = the (run race_schedule race_boot)"

text \<open>After \<^verbatim>\<open>mule_synchronize\<close> has returned, worker 1 runs lines 129 and 130 for item 1.\<close>

definition race_late :: config where
  "race_late = the (run [Worker 1, Worker 1] race_final)"

text \<open>
  The same race without the \<^verbatim>\<open>mule_synchronize\<close>; at the end worker 1 runs lines 129 and 130
  for item 1.
\<close>

definition overrun_boot :: config where
  "overrun_boot = boot 2 0 0 [[Launch, Submit 1]]"

definition overrun_schedule :: "label list" where
  "overrun_schedule =
     replicate 7 (Caller 0) @ replicate 2 (Worker 0) @ replicate 3 (Caller 0)
     @ replicate 4 (Worker 1) @ replicate 4 (Worker 0) @ replicate 2 (Worker 1)"

definition overrun_final :: config where
  "overrun_final = the (run overrun_schedule overrun_boot)"

text \<open>
  One worker; \<^verbatim>\<open>mule_launch\<close>, \<^verbatim>\<open>mule_submit(&mule, 1)\<close>, \<^verbatim>\<open>mule_synchronize\<close>, \<^verbatim>\<open>mule_reset\<close>,
  \<^verbatim>\<open>mule_submit(&mule, 1)\<close>, \<^verbatim>\<open>mule_synchronize\<close>. The worker loads \<^verbatim>\<open>queued\<close> before the
  stores of \<^verbatim>\<open>mule_reset\<close> and \<^verbatim>\<open>processing\<close> after them:
  \<^item> \<open>Caller 0\<close>, 9 times: \<^verbatim>\<open>mule_launch\<close> and the first \<^verbatim>\<open>mule_submit\<close>;
  \<^item> \<open>Worker 0\<close>, 8 times: item 1 (lines 103, 107, 108, 127, 129, 130), the signal of line
    141, and line 107 again, which reads \<^verbatim>\<open>queued == 1\<close>;
  \<^item> \<open>Caller 0\<close>, 18 times: \<^verbatim>\<open>mule_synchronize\<close> (7) and the whole of \<^verbatim>\<open>mule_reset\<close> (11);
  \<^item> \<open>Worker 0\<close>, 15 times: line 108 reads \<^verbatim>\<open>processing == 0\<close>, which differs from its
    \<^verbatim>\<open>queued\<close> of 1, and the worker claims and runs item 1; from then on \<^verbatim>\<open>queued == 0\<close> and
    \<^verbatim>\<open>processing\<close> is ahead of it, and the worker claims and runs items 2 and 3;
  \<^item> \<open>Caller 0\<close>, 10 times: the second \<^verbatim>\<open>mule_submit\<close> and \<^verbatim>\<open>mule_synchronize\<close>, which reads
    \<^verbatim>\<open>queued == 1\<close> and \<^verbatim>\<open>processed == 3\<close>.
\<close>

definition reset_boot :: config where
  "reset_boot = boot 1 0 0 [[Launch, Submit 1, Synchronize, Reset, Submit 1, Synchronize]]"

definition reset_schedule_before :: "label list" where
  "reset_schedule_before =
     replicate 9 (Caller 0) @ replicate 8 (Worker 0) @ replicate 18 (Caller 0)"

definition reset_schedule_after :: "label list" where
  "reset_schedule_after = replicate 15 (Worker 0) @ replicate 10 (Caller 0)"

definition reset_done :: config where
  "reset_done = the (run reset_schedule_before reset_boot)"

definition reset_final :: config where
  "reset_final = the (run reset_schedule_after reset_done)"

text \<open>
  One worker, \<^verbatim>\<open>mule_launch\<close> before \<^verbatim>\<open>mule_submit(&mule, 1)\<close> and \<^verbatim>\<open>mule_synchronize\<close>. The
  worker finds the queue empty, takes the mutex and is about to wait while both broadcasts
  pass:
  \<^item> \<open>Caller 0\<close>, 6 times: \<^verbatim>\<open>mule_launch\<close>;
  \<^item> \<open>Worker 0\<close>, 5 times: lines 103, 107, 108 (0 == 0), 113 and 114;
  \<^item> \<open>Caller 0\<close>, 5 times: \<^verbatim>\<open>mule_submit\<close> with its broadcast, and the broadcast of line 184;
    \<^verbatim>\<open>mtx_lock\<close> of line 187 has to wait;
  \<^item> \<open>Worker 0\<close>, once: \<^verbatim>\<open>cnd_wait\<close> of line 119;
  \<^item> \<open>Caller 0\<close>, 5 times: lines 187 to 202.
  \<open>poll_schedule\<close> is one more round of the loop of \<^verbatim>\<open>mule_synchronize\<close>, \<open>wake_schedule\<close> what
  follows when the worker does wake up.
\<close>

definition lost_wakeup_boot :: config where
  "lost_wakeup_boot = boot 1 0 0 [[Launch, Submit 1, Synchronize]]"

definition lost_wakeup_schedule :: "label list" where
  "lost_wakeup_schedule =
     replicate 6 (Caller 0) @ replicate 5 (Worker 0) @ replicate 5 (Caller 0)
     @ replicate 1 (Worker 0) @ replicate 5 (Caller 0)"

definition lost_wakeup_state :: config where
  "lost_wakeup_state = the (run lost_wakeup_schedule lost_wakeup_boot)"

definition poll_schedule :: "label list" where
  "poll_schedule = Timeout 0 # replicate 5 (Caller 0)"

definition wake_schedule :: "label list" where
  "wake_schedule = Wake 0 # replicate 8 (Worker 0) @ replicate 5 (Caller 0)"











text \<open>
  No worker; one thread in \<^verbatim>\<open>mule_synchronize\<close>, another one in \<^verbatim>\<open>mule_submit(&mule, 1)\<close>
  whose fetch-add falls between the two loads of lines 193 and 194.
\<close>

definition late_submit_boot :: config where
  "late_submit_boot = boot 0 0 0 [[Synchronize], [Submit 1]]"

definition late_submit_schedule :: "label list" where
  "late_submit_schedule =
     replicate 5 (Caller 0) @ replicate 2 (Caller 1) @ replicate 2 (Caller 0)"

definition late_submit_final :: config where
  "late_submit_final = the (run late_submit_schedule late_submit_boot)"

text \<open>The test program up to the last operation of its \<^verbatim>\<open>mule_synchronize\<close>, and that operation.\<close>

definition quench_schedule :: "label list" where
  "quench_schedule = replicate 10 (Caller 0) @ replicate 42 (Worker 0) @ replicate 6 (Caller 0)"

definition quench_before :: config where
  "quench_before = the (run quench_schedule t1_boot)"

definition quench_after :: config where
  "quench_after = the (step (Caller 0) quench_before)"

text \<open>\<^verbatim>\<open>mule_init(&mule, 9, w1, NULL)\<close> and \<^verbatim>\<open>mule_launch\<close>.\<close>

definition nine_boot :: config where
  "nine_boot = boot 9 0 0 [[Launch]]"

definition nine_final :: config where
  "nine_final = the (run [Caller 0, Caller 0, Caller 0] nine_boot)"

text \<open>
  \<^verbatim>\<open>mule_launch\<close> twice, then \<^verbatim>\<open>mule_shutdown\<close> twice, with two workers: the program when the
  second \<^verbatim>\<open>mule_launch\<close> is at line 161, and when the second \<^verbatim>\<open>mule_shutdown\<close> is at line 227.
\<close>

definition twice_boot :: config where
  "twice_boot = boot 2 0 0 [[Launch, Launch, Shutdown, Shutdown]]"

definition twice_launched :: config where
  "twice_launched = the (run (replicate 8 (Caller 0)) twice_boot)"

definition twice_stopped :: config where
  "twice_stopped =
     the (run (replicate 7 (Caller 0) @ replicate 7 (Worker 0) @ replicate 7 (Worker 1)
               @ replicate 4 (Caller 0)) twice_launched)"

subsection \<open>A pool with one worker and one calling thread\<close>

text \<open>
  The items a calling thread has still to submit, as a natural number, without the
  wrap-around of \<^verbatim>\<open>size_t\<close>.
\<close>

fun pendN_call :: "call \<Rightarrow> nat" where
  "pendN_call (Submit n) = unat n"
| "pendN_call f = 0"

fun pendN_pc :: "cpc \<Rightarrow> nat" where
  "pendN_pc (Sub_FetchAdd n) = unat n"
| "pendN_pc p = 0"

definition pendN :: "caller \<Rightarrow> nat" where
  "pendN c = sum_list (map pendN_call (prog c)) + pendN_pc (cpc c)"

text \<open>A worker between its successful compare-and-swap (line 127) and its fetch-add (line 130).\<close>

fun inflight :: "wpc \<Rightarrow> nat" where
  "inflight W_Kernel = 1"
| "inflight W_FetchAdd = 1"
| "inflight p = 0"

text \<open>A slot of \<^verbatim>\<open>threads[]\<close> whose thread does not run: never created, or returned.\<close>

fun dead :: "wpc \<Rightarrow> bool" where
  "dead W_None = True"
| "dead W_Exited = True"
| "dead p = False"

text \<open>
  The places of the calling thread: in \<^verbatim>\<open>mule_shutdown\<close> between the store of line 233 and
  the end of the first \<^verbatim>\<open>thrd_join\<close>; in \<^verbatim>\<open>mule_launch\<close> before the store of line 169; and
  in its loop of \<^verbatim>\<open>thrd_create\<close>.
\<close>

fun joining :: "cpc \<Rightarrow> bool" where
  "joining Sh_Unlock = True"
| "joining Sh_Broadcast = True"
| "joining (Sh_Join i) = (i = 0)"
| "joining p = False"

fun before_create :: "cpc \<Rightarrow> bool" where
  "before_create La_Assign = True"
| "before_create La_StoreRunning = True"
| "before_create p = False"

fun creating :: "cpc \<Rightarrow> bool" where
  "creating (La_Create i) = True"
| "creating p = False"

text \<open>
  What the only calling thread knows inside \<^verbatim>\<open>mule_synchronize\<close>, where nobody else
  submits: the \<^verbatim>\<open>queued\<close> it loaded is the current one, and at the unlock, and after the
  return, \<^verbatim>\<open>queued <= processed\<close>.
\<close>

fun sync_view :: "cpc \<Rightarrow> caller \<Rightarrow> mu_mule \<Rightarrow> bool" where
  "sync_view Sy_LoadProcessed c m = (c_queued c = queued m)"
| "sync_view Sy_Unlock c m = (queued m \<le> processed m)"
| "sync_view C_Idle c m = (last_ret c \<noteq> Some Synchronize \<or> queued m \<le> processed m)"
| "sync_view p c m = True"

text \<open>
  What the only worker knows in its round, where nobody else claims: after line 107
  \<^verbatim>\<open>processing\<close> is not ahead of its \<^verbatim>\<open>queued\<close>, which is not ahead of the current one;
  before the compare-and-swap the item it wants is within its \<^verbatim>\<open>queued\<close>; before the
  kernel call its item is the current \<^verbatim>\<open>processing\<close>.
\<close>

fun worker_view :: "wpc \<Rightarrow> mu_thread \<Rightarrow> mu_mule \<Rightarrow> bool" where
  "worker_view W_LoadProcessing w m = (processing m \<le> w_queued w \<and> w_queued w \<le> queued m)"
| "worker_view W_CAS w m =
     (w_processing w < w_queued w \<and> w_queued w \<le> queued m \<and> w_workitem w = w_processing w + 1)"
| "worker_view W_Kernel w m = (w_workitem w = processing m \<and> processing m \<noteq> 0)"
| "worker_view p w m = True"

text \<open>The kernel log in which worker 0 has run the items 1 to \<open>n\<close>, in order, once each.\<close>

definition executed :: "nat \<Rightarrow> (size_t \<times> size_t) list" where
  "executed n = map (\<lambda>i. (0, of_nat i)) [1 ..< Suc n]"

text \<open>
  The invariant of a pool with one worker (in slot 0) and one calling thread that never
  resets, while the items submitted stay below \<open>2 ^ 64\<close>.
\<close>

definition solo :: "caller \<Rightarrow> mu_mule \<Rightarrow> (size_t \<times> size_t) list \<Rightarrow> bool" where
  "solo c m lg =
     (no_reset c \<and> stack_ok c \<and> in_call (cpc c) \<noteq> Some Reset
      \<and> sync_view (cpc c) c m
      \<and> (\<not> creating (cpc c) \<or> running m)
      \<and> unat (queued m) + pendN c < 2 ^ 64
      \<and> num_threads m = 1
      \<and> threads m \<noteq> []
      \<and> list_all (\<lambda>w. wpc w = W_None) (tl (threads m))
      \<and> idx (hd (threads m)) = 0
      \<and> processing m \<le> queued m
      \<and> unat (processed m) + inflight (wpc (hd (threads m))) = unat (processing m)
      \<and> worker_view (wpc (hd (threads m))) (hd (threads m)) m
      \<and> (running m \<or> joining (cpc c) \<or> dead (wpc (hd (threads m))))
      \<and> (\<not> before_create (cpc c) \<or> \<not> running m)
      \<and> (cpc c \<noteq> La_Create 0 \<or> dead (wpc (hd (threads m))))
      \<and> lg = executed (unat (processing m) - (if wpc (hd (threads m)) = W_Kernel then 1 else 0)))"

definition solo_config :: "config \<Rightarrow> bool" where
  "solo_config s = (length (callers s) = 1 \<and> solo (hd (callers s)) (pool s) (klog s))"

section \<open>Properties\<close>

subsection \<open>Steps that leave a part of the program alone\<close>

lemma list_all_update: "list_all P xs \<Longrightarrow> P x \<Longrightarrow> list_all P (xs[j := x])"
  by (induction xs arbitrary: j) (auto split: nat.splits)

lemma run_append:
  "run (a @ b) s = (case run a s of None \<Rightarrow> None | Some s' \<Rightarrow> run b s')"
  by (induction a arbitrary: s) (auto split: option.splits)

lemma thread_step_frame:
  "thread_step me p w m = Some (w', m', ev) \<Longrightarrow>
     queued m' = queued m \<and> running m' = running m \<and> num_threads m' = num_threads m
     \<and> threads m' = threads m \<and> destroyed m' = destroyed m"
  by (cases p) (auto split: if_splits)

lemma mule_thread_frame:
  "mule_thread i m = Some (m', ev) \<Longrightarrow>
     queued m' = queued m \<and> running m' = running m \<and> num_threads m' = num_threads m
     \<and> destroyed m' = destroyed m \<and> length (threads m') = length (threads m)"
  by (auto simp: mule_thread_def split: if_splits option.splits dest!: thread_step_frame)

lemma cas_fail_frame:
  "cas_fail i m = Some m' \<Longrightarrow>
     queued m' = queued m \<and> running m' = running m \<and> num_threads m' = num_threads m
     \<and> processing m' = processing m \<and> processed m' = processed m"
  by (auto simp: cas_fail_def split: if_splits)

lemma wake_frame:
  "wake i m = Some m' \<Longrightarrow>
     queued m' = queued m \<and> running m' = running m \<and> num_threads m' = num_threads m
     \<and> processing m' = processing m \<and> processed m' = processed m \<and> threads m' = threads m"
  by (auto simp: wake_def split: if_splits)

lemma timeout_frame:
  "timeout j c m = Some m' \<Longrightarrow>
     queued m' = queued m \<and> running m' = running m \<and> num_threads m' = num_threads m
     \<and> processing m' = processing m \<and> processed m' = processed m \<and> threads m' = threads m"
  by (auto simp: timeout_def split: if_splits)

lemma step_other_caller:
  "step l s = Some s' \<Longrightarrow> l \<noteq> Caller j \<Longrightarrow>
     callers s' ! j = callers s ! j \<and> length (callers s') = length (callers s)"
  by (cases l) (auto split: if_splits option.splits)

lemma run_other_caller:
  "run ls s = Some s' \<Longrightarrow> Caller j \<notin> set ls \<Longrightarrow>
     callers s' ! j = callers s ! j \<and> length (callers s') = length (callers s)"
proof (induction ls arbitrary: s)
  case Nil then show ?case by simp
next
  case (Cons l ls)
  then obtain s1 where 1: "step l s = Some s1" and 2: "run ls s1 = Some s'"
    by (auto split: option.splits)
  from Cons.prems(2) have "l \<noteq> Caller j" "Caller j \<notin> set ls" by auto
  with step_other_caller [OF 1] Cons.IH [OF 2] show ?case by simp
qed

subsection \<open>Return values\<close>

lemma rets_enter: "rets (enter k c) = rets c"
  by (cases k) simp_all

lemma rets_ok_ret: "rets_ok c \<Longrightarrow> ret_ok (f, v) \<Longrightarrow> rets_ok (ret f v c)"
  by (simp add: rets_ok_def ret_def split: list.splits)

lemma caller_step_rets_ok:
  "caller_step me p c m = Some (c', m') \<Longrightarrow> rets_ok c \<Longrightarrow> rets_ok c'"
  by (cases p)
    (auto simp: rets_ok_ret rets_enter rets_ok_def[of "_\<lparr>cpc := _\<rparr>"]
       rets_ok_def[of "enter _ _"] rets_ok_def[of c] split: if_splits list.splits)

lemma step_rets_ok:
  "step l s = Some s' \<Longrightarrow> list_all rets_ok (callers s) \<Longrightarrow> list_all rets_ok (callers s')"
proof (cases l)
  case (Caller j)
  assume a: "step l s = Some s'" and ok: "list_all rets_ok (callers s)"
  from a Caller obtain c' m' where j: "j < length (callers s)"
    and cs: "caller_step (Dispatcher j) (cpc (callers s ! j)) (callers s ! j) (pool s) = Some (c', m')"
    and s': "s' = s\<lparr>pool := m', callers := (callers s)[j := c']\<rparr>"
    by (auto split: if_splits option.splits)
  from ok j have "rets_ok (callers s ! j)" by (simp add: list_all_length)
  with cs have "rets_ok c'" by (rule caller_step_rets_ok)
  with ok s' show ?thesis by (simp add: list_all_update)
qed (auto split: if_splits option.splits)

lemma run_rets_ok:
  "run ls s = Some s' \<Longrightarrow> list_all rets_ok (callers s) \<Longrightarrow> list_all rets_ok (callers s')"
proof (induction ls arbitrary: s)
  case Nil then show ?case by simp
next
  case (Cons l ls)
  then show ?case by (auto split: option.splits dest: step_rets_ok)
qed

lemma boot_rets_ok: "list_all rets_ok (callers (boot n k u ps))"
  by (simp add: boot_def list_all_iff rets_ok_def new_caller_def)

text \<open>
  C10. Whatever the schedule, every value that \<^verbatim>\<open>mule_launch\<close>, \<^verbatim>\<open>mule_synchronize\<close>,
  \<^verbatim>\<open>mule_reset\<close>, \<^verbatim>\<open>mule_shutdown\<close> or \<^verbatim>\<open>mule_destroy\<close> has returned to a calling thread is 0.
  (A call that stops at a failed \<^verbatim>\<open>assert\<close>, or that writes past \<^verbatim>\<open>threads[]\<close>, returns
  nothing.)
\<close>

theorem lifecycle_calls_return_zero:
  assumes "run sched (boot n k u ps) = Some s"
    and "c \<in> set (callers s)"
    and "(f, v) \<in> set (rets c)"
    and "f \<in> {Launch, Synchronize, Reset, Shutdown, Destroy}"
  shows "v = RetInt 0"
proof -
  from run_rets_ok [OF assms(1) boot_rets_ok] assms(2) have "rets_ok c"
    by (simp add: list_all_iff)
  with assms(3) have "ret_ok (f, v)" by (auto simp: rets_ok_def list_all_iff)
  with assms(4) show ?thesis by auto
qed

lemma t1_runs: "run t1_schedule (boot 2 0 0 [t1_program]) = Some t1_final"
  unfolding t1_final_def t1_boot_def by code_simp

theorem lifecycle_calls_return_zero_witness:
  "run t1_schedule (boot 2 0 0 [t1_program]) = Some t1_final
   \<and> rets (hd (callers t1_final)) =
       [(Submit 8, RetSize 8), (Launch, RetInt 0), (Synchronize, RetInt 0),
        (Shutdown, RetInt 0), (Destroy, RetInt 0)]
   \<and> snd (last (rets (hd (callers t1_final)))) = RetInt 0"
proof -
  have c: "hd (callers t1_final) \<in> set (callers t1_final)"
    unfolding t1_final_def t1_boot_def by code_simp
  have r: "rets (hd (callers t1_final)) =
       [(Submit 8, RetSize 8), (Launch, RetInt 0), (Synchronize, RetInt 0),
        (Shutdown, RetInt 0), (Destroy, RetInt 0)]"
    unfolding t1_final_def t1_boot_def by code_simp
  then have m: "(Destroy, snd (last (rets (hd (callers t1_final))))) \<in> set (rets (hd (callers t1_final)))"
    by simp
  from lifecycle_calls_return_zero [OF t1_runs c m] t1_runs r show ?thesis by simp
qed

subsection \<open>Submitting\<close>

lemma sum_list_update_word:
  fixes xs :: "size_t list"
  shows "j < length xs \<Longrightarrow> sum_list (xs[j := x]) + xs ! j = sum_list xs + x"
  by (induction xs arbitrary: j) (auto split: nat.splits)

lemma word_swap:
  fixes q :: size_t
  assumes "tp' + pj = tp + pc'" and "q' + pc' = q + pj"
  shows "q' + tp' = q + tp"
proof -
  from assms(1) have 1: "tp' = tp + pc' - pj" by (simp add: eq_diff_eq)
  from assms(2) have 2: "q' = q + pj - pc'" by (simp add: eq_diff_eq)
  show ?thesis unfolding 1 2 by simp
qed

lemma pending_enter:
  "pending (enter k (c\<lparr>prog := ks\<rparr>)) = pending_call k + sum_list (map pending_call ks)"
  by (cases k) (simp_all add: pending_def)

lemma no_reset_enter:
  "no_reset c \<Longrightarrow> prog c = k # ks \<Longrightarrow> no_reset (enter k (c\<lparr>prog := ks\<rparr>))"
  by (cases k) (auto simp: no_reset_def)

lemma caller_step_pending:
  assumes "caller_step me (cpc c) c m = Some (c', m')" and "no_reset c"
  shows "no_reset c' \<and> queued m' + pending c' = queued m + pending c"
proof (cases "cpc c")
  case C_Idle
  with assms show ?thesis
    by (auto simp: pending_enter no_reset_enter split: list.splits) (simp add: pending_def)
next
  case (Sub_FetchAdd n)
  with assms show ?thesis by (auto simp: pending_def no_reset_def)
qed (use assms in \<open>auto simp: no_reset_def pending_def ret_def split: if_splits list.splits\<close>)

lemma step_pending:
  assumes "step l s = Some s'" and "list_all no_reset (callers s)"
  shows "list_all no_reset (callers s') \<and>
         queued (pool s') + total_pending s' = queued (pool s) + total_pending s"
proof (cases l)
  case (Caller j)
  with assms obtain c' m' where j: "j < length (callers s)"
    and cs: "caller_step (Dispatcher j) (cpc (callers s ! j)) (callers s ! j) (pool s) = Some (c', m')"
    and s': "s' = s\<lparr>pool := m', callers := (callers s)[j := c']\<rparr>"
    by (auto split: if_splits option.splits)
  from assms(2) j have nr: "no_reset (callers s ! j)" by (simp add: list_all_length)
  from caller_step_pending [OF cs nr]
  have c': "no_reset c'" and q: "queued m' + pending c' = queued (pool s) + pending (callers s ! j)"
    by simp_all
  have "sum_list ((map pending (callers s))[j := pending c']) + map pending (callers s) ! j
        = sum_list (map pending (callers s)) + pending c'"
    using j by (intro sum_list_update_word) simp
  then have "total_pending s' + pending (callers s ! j) = total_pending s + pending c'"
    using j by (simp add: total_pending_def s' map_update)
  from this q have "queued m' + total_pending s' = queued (pool s) + total_pending s"
    by (rule word_swap)
  moreover have "list_all no_reset (callers s')"
    using assms(2) c' by (simp add: s' list_all_update)
  ultimately show ?thesis by (simp add: s')
next
  case (Worker i) with assms show ?thesis
    by (auto simp: total_pending_def split: if_splits option.splits dest!: mule_thread_frame)
next
  case (CasFail i) with assms show ?thesis
    by (auto simp: total_pending_def split: if_splits option.splits dest!: cas_fail_frame)
next
  case (Wake i) with assms show ?thesis
    by (auto simp: total_pending_def split: if_splits option.splits dest!: wake_frame)
next
  case (Timeout j) with assms show ?thesis
    by (auto simp: total_pending_def split: if_splits option.splits dest!: timeout_frame)
next
  case (Abort j) with assms show ?thesis
    by (auto simp: total_pending_def split: if_splits option.splits)
qed

lemma run_pending:
  "run ls s = Some s' \<Longrightarrow> list_all no_reset (callers s) \<Longrightarrow>
     queued (pool s') + total_pending s' = queued (pool s) + total_pending s"
proof (induction ls arbitrary: s)
  case Nil then show ?case by simp
next
  case (Cons l ls)
  then obtain s1 where 1: "step l s = Some s1" and 2: "run ls s1 = Some s'"
    by (auto split: option.splits)
  from step_pending [OF 1 Cons.prems(2)] Cons.IH [OF 2] show ?case by simp
qed

lemma submit_enters:
  assumes "\<not> aborted s" and "j < length (callers s)"
    and "cpc (callers s ! j) = C_Idle" and "prog (callers s ! j) = Submit n # ks"
  shows "step (Caller j) s
     = Some (s\<lparr>pool := pool s,
               callers := (callers s)[j := (callers s ! j)\<lparr>prog := ks, cpc := Sub_FetchAdd n\<rparr>]\<rparr>)"
  using assms by simp

lemma submit_fetch_add:
  assumes "\<not> aborted s" and "j < length (callers s)"
    and "cpc (callers s ! j) = Sub_FetchAdd n"
  shows "step (Caller j) s
     = Some (s\<lparr>pool := (pool s)\<lparr>queued := queued (pool s) + n\<rparr>,
               callers := (callers s)[j := (callers s ! j)
                  \<lparr>c_idx := queued (pool s), cpc := Sub_Broadcast n\<rparr>]\<rparr>)"
  using assms by simp

lemma submit_broadcast:
  assumes "\<not> aborted s" and "j < length (callers s)"
    and "cpc (callers s ! j) = Sub_Broadcast n" and "stack (callers s ! j) = []"
  shows "step (Caller j) s
     = Some (s\<lparr>pool := (pool s)\<lparr>wake_worker := []\<rparr>,
               callers := (callers s)[j := (callers s ! j)
                  \<lparr>cpc := C_Idle,
                   rets := rets (callers s ! j)
                           @ [(Submit n, RetSize (c_idx (callers s ! j) + n))]\<rparr>]\<rparr>)"
  using assms by (simp add: ret_def)

lemma submit_completes:
  assumes na: "\<not> aborted s" and j: "j < length (callers s)"
    and pc: "cpc (callers s ! j) = Sub_FetchAdd n"
    and st: "stack (callers s ! j) = []"
    and others: "Caller j \<notin> set sched"
    and r: "run (Caller j # sched) s = Some s2" and na2: "\<not> aborted s2"
  shows "\<exists>s3. step (Caller j) s2 = Some s3
       \<and> rets (callers s3 ! j) = rets (callers s ! j) @ [(Submit n, RetSize (queued (pool s) + n))]
       \<and> cpc (callers s3 ! j) = C_Idle"
proof -
  from r obtain s1 where 1: "step (Caller j) s = Some s1" and 2: "run sched s1 = Some s2"
    by (auto split: option.splits)
  from 1 submit_fetch_add [OF na j pc] j
  have c1: "callers s1 ! j = (callers s ! j)\<lparr>c_idx := queued (pool s), cpc := Sub_Broadcast n\<rparr>"
    and l1: "length (callers s1) = length (callers s)" by auto
  from run_other_caller [OF 2 others] c1 l1
  have c2: "callers s2 ! j = (callers s ! j)\<lparr>c_idx := queued (pool s), cpc := Sub_Broadcast n\<rparr>"
    and l2: "length (callers s2) = length (callers s)" by simp_all
  from l2 j have j2: "j < length (callers s2)" by simp
  from c2 st have "cpc (callers s2 ! j) = Sub_Broadcast n" "stack (callers s2 ! j) = []"
    by simp_all
  from submit_broadcast [OF na2 j2 this] c2 j2 show ?thesis by simp
qed

lemma pending_returned: "returned c \<Longrightarrow> pending c = 0"
  by (simp add: returned_def pending_def)

lemma total_pending_returned:
  assumes "list_all returned (callers s)"
  shows "total_pending s = 0"
proof -
  have "list_all returned cs \<Longrightarrow> sum_list (map pending cs) = 0" for cs
    by (induction cs) (simp_all add: pending_returned)
  with assms show ?thesis by (simp add: total_pending_def)
qed

lemma submitters_grow_queued:
  assumes r: "run sched (boot n k u (replicate N [Submit c])) = Some s'"
    and d: "list_all returned (callers s')"
  shows "queued (pool s') = of_nat N * c"
proof -
  let ?s = "boot n k u (replicate N [Submit c])"
  have nr: "list_all no_reset (callers ?s)"
    by (simp add: boot_def list_all_iff no_reset_def new_caller_def)
  have "map pending (callers ?s) = replicate N c"
    by (simp add: boot_def pending_def new_caller_def map_replicate_const)
  then have tp: "total_pending ?s = of_nat N * c"
    by (simp add: total_pending_def sum_list_replicate)
  have q0: "queued (pool ?s) = 0" by (simp add: boot_def mule_init_def)
  from run_pending [OF r nr] tp q0 total_pending_returned [OF d] show ?thesis by simp
qed

text \<open>
  C4. In every state of the program that no failed \<^verbatim>\<open>assert\<close> has stopped, and for every
  count \<open>n\<close>, a thread that calls \<^verbatim>\<open>mule_submit(mule, n)\<close> can make each of its three operations,
  and each has exactly one outcome:
  \<^item> the call is entered and nothing else changes;
  \<^item> the fetch-add of line 154 adds \<open>n\<close> to \<^verbatim>\<open>queued\<close> in that one step, keeps the old value in
    \<^verbatim>\<open>idx\<close>, and changes nothing else;
  \<^item> lines 155-156 broadcast and return \<^verbatim>\<open>idx + n\<close>.

  Whatever the other threads do between the fetch-add and the return, the thread can
  return, and the value returned is the \<^verbatim>\<open>queued\<close> of the moment of the fetch-add plus \<open>n\<close>.
  Submissions add up: whatever the schedule, while no thread resets the pool, \<^verbatim>\<open>queued\<close>
  plus the items still to be submitted stays the same; so when \<open>N\<close> threads that each call
  \<^verbatim>\<open>mule_submit(mule, c)\<close> on a fresh pool have returned, \<^verbatim>\<open>queued\<close> is \<open>N * c\<close>. The arithmetic
  is that of \<^verbatim>\<open>size_t\<close>.
\<close>

theorem mule_submit_adds_count:
  "(\<forall>j n ks s.
      \<not> aborted s \<and> j < length (callers s) \<and> cpc (callers s ! j) = C_Idle
        \<and> prog (callers s ! j) = Submit n # ks
      \<longrightarrow> step (Caller j) s
            = Some (s\<lparr>pool := pool s,
                      callers := (callers s)[j := (callers s ! j)
                         \<lparr>prog := ks, cpc := Sub_FetchAdd n\<rparr>]\<rparr>))
   \<and> (\<forall>j n s.
        \<not> aborted s \<and> j < length (callers s) \<and> cpc (callers s ! j) = Sub_FetchAdd n
        \<longrightarrow> step (Caller j) s
              = Some (s\<lparr>pool := (pool s)\<lparr>queued := queued (pool s) + n\<rparr>,
                        callers := (callers s)[j := (callers s ! j)
                           \<lparr>c_idx := queued (pool s), cpc := Sub_Broadcast n\<rparr>]\<rparr>))
   \<and> (\<forall>j n s.
        \<not> aborted s \<and> j < length (callers s) \<and> cpc (callers s ! j) = Sub_Broadcast n
          \<and> stack (callers s ! j) = []
        \<longrightarrow> step (Caller j) s
              = Some (s\<lparr>pool := (pool s)\<lparr>wake_worker := []\<rparr>,
                        callers := (callers s)[j := (callers s ! j)
                           \<lparr>cpc := C_Idle,
                            rets := rets (callers s ! j)
                                    @ [(Submit n, RetSize (c_idx (callers s ! j) + n))]\<rparr>]\<rparr>))
   \<and> (\<forall>j n sched s s2.
        \<not> aborted s \<and> j < length (callers s) \<and> cpc (callers s ! j) = Sub_FetchAdd n
          \<and> stack (callers s ! j) = [] \<and> Caller j \<notin> set sched
          \<and> run (Caller j # sched) s = Some s2 \<and> \<not> aborted s2
        \<longrightarrow> (\<exists>s3. step (Caller j) s2 = Some s3
               \<and> rets (callers s3 ! j)
                   = rets (callers s ! j) @ [(Submit n, RetSize (queued (pool s) + n))]
               \<and> cpc (callers s3 ! j) = C_Idle))
   \<and> (\<forall>sched s s'.
        run sched s = Some s' \<and> list_all no_reset (callers s)
        \<longrightarrow> queued (pool s') + total_pending s' = queued (pool s) + total_pending s)
   \<and> (\<forall>sched n k u N c s'.
        run sched (boot n k u (replicate N [Submit c])) = Some s'
          \<and> list_all returned (callers s')
        \<longrightarrow> queued (pool s') = of_nat N * c)"
  by (intro conjI allI impI; elim conjE;
      (rule submit_enters submit_fetch_add submit_broadcast submit_completes run_pending
            submitters_grow_queued; assumption))

theorem mule_submit_adds_count_witness:
  "\<not> aborted submitters_boot \<and> 0 < length (callers submitters_boot)
   \<and> cpc (callers submitters_boot ! 0) = C_Idle
   \<and> prog (callers submitters_boot ! 0) = [Submit 5]
   \<and> step (Caller 0) submitters_boot = Some submitters_entered
   \<and> cpc (callers submitters_entered ! 0) = Sub_FetchAdd 5
   \<and> stack (callers submitters_entered ! 0) = []
   \<and> queued (pool submitters_entered) = 0
   \<and> queued (pool (the (step (Caller 0) submitters_entered))) = 5
   \<and> run (Caller 0 # [Caller 1, Caller 2, Caller 2]) submitters_entered = Some submitters_between
   \<and> queued (pool submitters_between) = 10
   \<and> (\<exists>s3. step (Caller 0) submitters_between = Some s3
          \<and> rets (callers s3 ! 0) = [(Submit 5, RetSize 5)] \<and> cpc (callers s3 ! 0) = C_Idle)
   \<and> run submitters_schedule (boot 2 0 0 (replicate 3 [Submit 5])) = Some submitters_final
   \<and> list_all returned (callers submitters_final)
   \<and> queued (pool submitters_final) = 3 * 5
   \<and> map rets (callers submitters_final)
       = [[(Submit 5, RetSize 10)], [(Submit 5, RetSize 15)], [(Submit 5, RetSize 5)]]"
proof -
  have b: "\<not> aborted submitters_boot" "0 < length (callers submitters_boot)"
    "cpc (callers submitters_boot ! 0) = C_Idle"
    "prog (callers submitters_boot ! 0) = [Submit 5]"
    unfolding submitters_boot_def by code_simp+
  have e: "step (Caller 0) submitters_boot = Some submitters_entered"
    unfolding submitters_entered_def submitters_boot_def by code_simp
  have e1: "\<not> aborted submitters_entered" "0 < length (callers submitters_entered)"
    "cpc (callers submitters_entered ! 0) = Sub_FetchAdd 5"
    "stack (callers submitters_entered ! 0) = []"
    "queued (pool submitters_entered) = 0"
    "rets (callers submitters_entered ! 0) = []"
    unfolding submitters_entered_def submitters_boot_def by code_simp+
  from mule_submit_adds_count [THEN conjunct2, THEN conjunct1, THEN spec [of _ 0],
      THEN spec [of _ 5], THEN spec [of _ submitters_entered], THEN mp] e1(1-3)
  have "step (Caller 0) submitters_entered
      = Some (submitters_entered\<lparr>pool := (pool submitters_entered)
                \<lparr>queued := queued (pool submitters_entered) + 5\<rparr>,
              callers := (callers submitters_entered)[0 := (callers submitters_entered ! 0)
                \<lparr>c_idx := queued (pool submitters_entered), cpc := Sub_Broadcast 5\<rparr>]\<rparr>)"
    by simp
  with e1(5) have f: "queued (pool (the (step (Caller 0) submitters_entered))) = 5" by simp
  have r2: "run (Caller 0 # [Caller 1, Caller 2, Caller 2]) submitters_entered
      = Some submitters_between"
    unfolding submitters_between_def submitters_entered_def submitters_boot_def by code_simp
  have b2: "\<not> aborted submitters_between" "queued (pool submitters_between) = 10"
    unfolding submitters_between_def submitters_entered_def submitters_boot_def by code_simp+
  have o: "Caller 0 \<notin> set [Caller 1, Caller 2, Caller 2]" by simp
  from mule_submit_adds_count [THEN conjunct2, THEN conjunct2, THEN conjunct2, THEN conjunct1,
      THEN spec [of _ 0], THEN spec [of _ 5], THEN spec [of _ "[Caller 1, Caller 2, Caller 2]"],
      THEN spec [of _ submitters_entered], THEN spec [of _ submitters_between], THEN mp]
    e1(1-4) o r2 b2(1)
  have "\<exists>s3. step (Caller 0) submitters_between = Some s3
      \<and> rets (callers s3 ! 0)
          = rets (callers submitters_entered ! 0)
            @ [(Submit 5, RetSize (queued (pool submitters_entered) + 5))]
      \<and> cpc (callers s3 ! 0) = C_Idle"
    by simp
  with e1(5,6) have g: "\<exists>s3. step (Caller 0) submitters_between = Some s3
      \<and> rets (callers s3 ! 0) = [(Submit 5, RetSize 5)] \<and> cpc (callers s3 ! 0) = C_Idle"
    by simp
  have r: "run submitters_schedule (boot 2 0 0 (replicate 3 [Submit 5])) = Some submitters_final"
    unfolding submitters_final_def submitters_boot_def by code_simp
  have d: "list_all returned (callers submitters_final)"
    unfolding submitters_final_def submitters_boot_def by code_simp
  have rs: "map rets (callers submitters_final)
       = [[(Submit 5, RetSize 10)], [(Submit 5, RetSize 15)], [(Submit 5, RetSize 5)]]"
    unfolding submitters_final_def submitters_boot_def by code_simp
  from mule_submit_adds_count [THEN conjunct2, THEN conjunct2, THEN conjunct2, THEN conjunct2,
      THEN conjunct2, THEN spec [of _ submitters_schedule], THEN spec [of _ 2],
      THEN spec [of _ 0], THEN spec [of _ 0], THEN spec [of _ 3], THEN spec [of _ 5],
      THEN spec [of _ submitters_final], THEN mp] r d
  have "queued (pool submitters_final) = of_nat 3 * 5" by simp
  then have q: "queued (pool submitters_final) = 3 * 5" by simp
  from b e e1 f r2 b2 g r d q rs show ?thesis by simp
qed

subsection \<open>Invariants of the calling threads\<close>

lemma step_callers_inv:
  assumes inv: "\<And>me c m c' m'. caller_step me (cpc c) c m = Some (c', m') \<Longrightarrow> P c \<Longrightarrow> P c'"
    and st: "step l s = Some s'" and ok: "list_all P (callers s)"
  shows "list_all P (callers s')"
proof (cases l)
  case (Caller j)
  with st obtain c' m' where j: "j < length (callers s)"
    and cs: "caller_step (Dispatcher j) (cpc (callers s ! j)) (callers s ! j) (pool s) = Some (c', m')"
    and s': "s' = s\<lparr>pool := m', callers := (callers s)[j := c']\<rparr>"
    by (auto split: if_splits option.splits)
  from ok j have "P (callers s ! j)" by (simp add: list_all_length)
  with cs have "P c'" by (rule inv)
  with ok s' show ?thesis by (simp add: list_all_update)
qed (use st ok in \<open>auto split: if_splits option.splits\<close>)

lemma run_callers_inv:
  assumes inv: "\<And>me c m c' m'. caller_step me (cpc c) c m = Some (c', m') \<Longrightarrow> P c \<Longrightarrow> P c'"
  shows "run ls s = Some s' \<Longrightarrow> list_all P (callers s) \<Longrightarrow> list_all P (callers s')"
proof (induction ls arbitrary: s)
  case Nil then show ?case by simp
next
  case (Cons l ls)
  then obtain s1 where 1: "step l s = Some s1" and 2: "run ls s1 = Some s'"
    by (auto split: option.splits)
  from step_callers_inv [of P, OF inv 1 Cons.prems(2)] Cons.IH [OF 2] show ?case by simp
qed

subsection \<open>Waiting for the queue to quench\<close>

lemma caller_step_sync_ok:
  assumes "caller_step me (cpc c) c m = Some (c', m')" and "sync_ok c"
  shows "sync_ok c'"
proof (cases "cpc c")
  case C_Idle
  with assms show ?thesis
    by (cases "prog c"; cases "hd (prog c)") (auto simp: sync_ok_def stack_ok_def)
qed (use assms in \<open>auto simp: sync_ok_def stack_ok_def ret_def split: if_splits list.splits\<close>)

lemma boot_sync_ok: "list_all sync_ok (callers (boot n k u ps))"
  by (simp add: boot_def list_all_iff sync_ok_def stack_ok_def new_caller_def)

lemma returns_synchronize:
  assumes "caller_step me (cpc c) c m = Some (c', m')"
    and "rets c' = rets c @ [(Synchronize, v)]"
  shows "v = RetInt 0 \<and> cpc c = Sy_Unlock"
proof (cases "cpc c")
  case C_Idle
  with assms show ?thesis
    by (cases "prog c"; cases "hd (prog c)") auto
qed (use assms in \<open>auto simp: ret_def split: if_splits list.splits\<close>)

text \<open>
  The loop of \<^verbatim>\<open>mule_synchronize\<close> on the counters. Whatever the schedule, when
  \<^verbatim>\<open>mule_synchronize\<close> returns it returns 0, from the unlock of line 207, and the values it
  loaded last, \<^verbatim>\<open>queued\<close> and then \<^verbatim>\<open>processed\<close>, satisfy \<^verbatim>\<open>queued <= processed\<close>. At the test
  of line 195 it goes to the timed wait when \<^verbatim>\<open>processed < queued\<close> and to the unlock
  otherwise, and after every wait it goes back to the head of the loop, which loads both
  counters again.
\<close>

lemma synchronize_returns_on_quench_observed:
  assumes r: "run sched (boot n k u ps) = Some s"
    and st: "step (Caller j) s = Some s'"
  shows "(rets (callers s' ! j) = rets (callers s ! j) @ [(Synchronize, v)]
            \<longrightarrow> v = RetInt 0 \<and> cpc (callers s ! j) = Sy_Unlock
                \<and> c_queued (callers s ! j) \<le> c_processed (callers s ! j))
      \<and> (cpc (callers s ! j) = Sy_LoadProcessed
            \<longrightarrow> c_processed (callers s' ! j) = processed (pool s)
                \<and> cpc (callers s' ! j)
                    = (if processed (pool s) < c_queued (callers s ! j) then Sy_TimedWait
                       else Sy_Unlock))
      \<and> (cpc (callers s ! j) = Sy_Waiting \<longrightarrow> cpc (callers s' ! j) = Sy_Clock)"
proof -
  from st obtain c' m' where j: "j < length (callers s)"
    and cs: "caller_step (Dispatcher j) (cpc (callers s ! j)) (callers s ! j) (pool s) = Some (c', m')"
    and s': "s' = s\<lparr>pool := m', callers := (callers s)[j := c']\<rparr>"
    by (auto split: if_splits option.splits)
  from run_callers_inv [of sync_ok, OF caller_step_sync_ok r boot_sync_ok] j
  have ok: "sync_ok (callers s ! j)" by (simp add: list_all_length)
  have c': "callers s' ! j = c'" using j s' by simp
  have 1: "rets c' = rets (callers s ! j) @ [(Synchronize, v)]
      \<longrightarrow> v = RetInt 0 \<and> cpc (callers s ! j) = Sy_Unlock
                \<and> c_queued (callers s ! j) \<le> c_processed (callers s ! j)"
    using returns_synchronize [OF cs] ok by (auto simp: sync_ok_def)
  have 2: "cpc (callers s ! j) = Sy_LoadProcessed
            \<longrightarrow> c_processed c' = processed (pool s)
                \<and> cpc c' = (if processed (pool s) < c_queued (callers s ! j) then Sy_TimedWait
                       else Sy_Unlock)"
    using cs by (auto split: if_splits)
  have 3: "cpc (callers s ! j) = Sy_Waiting \<longrightarrow> cpc c' = Sy_Clock"
    using cs by (auto split: if_splits)
  from 1 2 3 show ?thesis unfolding c' by blast
qed

lemma quench_run: "run quench_schedule (boot 2 0 0 [t1_program]) = Some quench_before"
  unfolding quench_before_def t1_boot_def by code_simp

text \<open>The last operation of \<^verbatim>\<open>mule_synchronize\<close> in the test program: both values loaded are 8.\<close>

lemma synchronize_returns_in_test_program:
  "run quench_schedule (boot 2 0 0 [t1_program]) = Some quench_before
   \<and> step (Caller 0) quench_before = Some quench_after
   \<and> rets (callers quench_after ! 0) = rets (callers quench_before ! 0) @ [(Synchronize, RetInt 0)]
   \<and> cpc (callers quench_before ! 0) = Sy_Unlock
   \<and> c_queued (callers quench_before ! 0) = 8
   \<and> c_processed (callers quench_before ! 0) = 8
   \<and> c_queued (callers quench_before ! 0) \<le> c_processed (callers quench_before ! 0)"
proof -
  have st: "step (Caller 0) quench_before = Some quench_after"
    unfolding quench_after_def quench_before_def t1_boot_def by code_simp
  have rs: "rets (callers quench_after ! 0)
      = rets (callers quench_before ! 0) @ [(Synchronize, RetInt 0)]"
    unfolding quench_after_def quench_before_def t1_boot_def by code_simp
  have q: "c_queued (callers quench_before ! 0) = 8"
    and p: "c_processed (callers quench_before ! 0) = 8"
    unfolding quench_before_def t1_boot_def by code_simp+
  from synchronize_returns_on_quench_observed [OF quench_run st, of "RetInt 0"] rs
  have "cpc (callers quench_before ! 0) = Sy_Unlock
      \<and> c_queued (callers quench_before ! 0) \<le> c_processed (callers quench_before ! 0)"
    by blast
  with quench_run st rs q p show ?thesis by simp
qed

text \<open>
  The two loads are not one operation: with a second thread in \<^verbatim>\<open>mule_submit(&mule, 1)\<close> whose
  fetch-add falls between them, \<^verbatim>\<open>mule_synchronize\<close> returns while \<^verbatim>\<open>processed\<close> is 0 and
  \<^verbatim>\<open>queued\<close> is 1. That item was submitted after the call had loaded \<^verbatim>\<open>queued\<close>.
\<close>

lemma synchronize_misses_later_submission:
  "run late_submit_schedule late_submit_boot = Some late_submit_final
   \<and> rets (hd (callers late_submit_final)) = [(Synchronize, RetInt 0)]
   \<and> queued (pool late_submit_final) = 1
   \<and> processed (pool late_submit_final) = 0
   \<and> processed (pool late_submit_final) < queued (pool late_submit_final)
   \<and> klog late_submit_final = []"
  unfolding late_submit_final_def by code_simp

subsection \<open>Launching and shutting down twice\<close>

lemma last_ret_enter [simp]: "last_ret (enter k c) = last_ret c"
  by (cases k) (simp_all add: last_ret_def)

lemma last_ret_upd [simp]:
  "last_ret (c\<lparr>cpc := p\<rparr>) = last_ret c"
  "last_ret (c\<lparr>prog := ks\<rparr>) = last_ret c"
  "last_ret (c\<lparr>c_idx := x\<rparr>) = last_ret c"
  "last_ret (c\<lparr>c_queued := x\<rparr>) = last_ret c"
  "last_ret (c\<lparr>c_processed := x\<rparr>) = last_ret c"
  "last_ret (c\<lparr>stack := st\<rparr>) = last_ret c"
  "last_ret (c\<lparr>rets := rs @ [(f, v)]\<rparr>) = Some f"
  "last_ret (c\<lparr>cpc := p, rets := rs @ [(f, v)]\<rparr>) = Some f"
  by (simp_all add: last_ret_def)

lemma caller_step_owner_ok:
  assumes "caller_step me (cpc c) c m = Some (c', m')" and "owner_ok c m"
  shows "owner_ok c' m'"
proof (cases "cpc c")
  case C_Idle
  with assms show ?thesis
    by (cases "prog c"; cases "hd (prog c)") (auto simp: owner_ok_def stack_ok_def)
qed (use assms in \<open>auto simp: owner_ok_def stack_ok_def ret_def split: if_splits list.splits\<close>)

lemma step_owner_ok:
  assumes st: "step l s = Some s'" and one: "callers s = [c]" and ok: "owner_ok c (pool s)"
  shows "\<exists>c'. callers s' = [c'] \<and> owner_ok c' (pool s')"
proof (cases l)
  case (Caller j)
  with st one obtain c' m' where
    cs: "caller_step (Dispatcher 0) (cpc c) c (pool s) = Some (c', m')"
    and s': "s' = s\<lparr>pool := m', callers := [c']\<rparr>"
    by (auto split: if_splits option.splits)
  from caller_step_owner_ok [OF cs ok] s' show ?thesis by simp
next
  case (Worker i) with assms show ?thesis
    by (auto simp: owner_ok_def split: if_splits option.splits dest!: mule_thread_frame)
next
  case (CasFail i) with assms show ?thesis
    by (auto simp: owner_ok_def split: if_splits option.splits dest!: cas_fail_frame)
next
  case (Wake i) with assms show ?thesis
    by (auto simp: owner_ok_def split: if_splits option.splits dest!: wake_frame)
next
  case (Timeout j) with assms show ?thesis
    by (auto simp: owner_ok_def split: if_splits option.splits dest!: timeout_frame)
next
  case (Abort j) with assms show ?thesis
    by (auto simp: owner_ok_def split: if_splits option.splits)
qed

lemma run_owner_ok:
  "run ls s = Some s' \<Longrightarrow> callers s = [c] \<Longrightarrow> owner_ok c (pool s) \<Longrightarrow>
     \<exists>c'. callers s' = [c'] \<and> owner_ok c' (pool s')"
proof (induction ls arbitrary: s c)
  case Nil then show ?case by simp
next
  case (Cons l ls)
  then obtain s1 where 1: "step l s = Some s1" and 2: "run ls s1 = Some s'"
    by (auto split: option.splits)
  from step_owner_ok [OF 1 Cons.prems(2,3)] obtain c1 where
    "callers s1 = [c1]" "owner_ok c1 (pool s1)" by blast
  from Cons.IH [OF 2 this] show ?case .
qed

lemma boot_owner_ok: "owner_ok (new_caller p) (mule_init n k u)"
  by (simp add: owner_ok_def stack_ok_def new_caller_def last_ret_def)

text \<open>
  C9. Whatever the schedule and the number of calling threads (and unless a failed \<^verbatim>\<open>assert\<close>
  has stopped the process): \<^verbatim>\<open>mule_launch\<close> that finds \<^verbatim>\<open>running\<close> set at line 161 returns 0
  in that one step and changes neither the pool, its threads included, nor the kernel log;
  \<^verbatim>\<open>mule_shutdown\<close> that finds \<^verbatim>\<open>running\<close> clear at line 227 returns 0 in that one step,
  before any join, and changes nothing. In a pool with one calling thread, \<^verbatim>\<open>running\<close> is set
  whenever the thread's last return was from \<^verbatim>\<open>mule_launch\<close> and it is between calls or at
  line 161 of the next \<^verbatim>\<open>mule_launch\<close>, and clear whenever its last return was from
  \<^verbatim>\<open>mule_shutdown\<close> and it is between calls or at line 227: the second of two calls in a
  row is that one step.
\<close>

theorem launch_and_shutdown_idempotent:
  "(\<forall>sched n k u ps s j.
      run sched (boot n k u ps) = Some s \<and> \<not> aborted s \<and> j < length (callers s)
      \<longrightarrow> (cpc (callers s ! j) = La_LoadRunning \<and> running (pool s)
            \<longrightarrow> step (Caller j) s
                = Some (s\<lparr>callers := (callers s)[j := (callers s ! j)\<lparr>cpc := C_Idle,
                      rets := rets (callers s ! j) @ [(Launch, RetInt 0)]\<rparr>]\<rparr>))
          \<and> (cpc (callers s ! j) = Sh_LoadRunning \<and> stack (callers s ! j) = []
               \<and> \<not> running (pool s)
            \<longrightarrow> step (Caller j) s
                = Some (s\<lparr>callers := (callers s)[j := (callers s ! j)\<lparr>cpc := C_Idle,
                      rets := rets (callers s ! j) @ [(Shutdown, RetInt 0)]\<rparr>]\<rparr>)))
   \<and> (\<forall>sched n k u p s.
        run sched (boot n k u [p]) = Some s
        \<longrightarrow> ((cpc (hd (callers s)) = C_Idle \<or> cpc (hd (callers s)) = La_LoadRunning)
               \<and> last_ret (hd (callers s)) = Some Launch
             \<longrightarrow> running (pool s))
          \<and> ((cpc (hd (callers s)) = C_Idle \<or> cpc (hd (callers s)) = Sh_LoadRunning)
               \<and> last_ret (hd (callers s)) = Some Shutdown
             \<longrightarrow> \<not> running (pool s)))"
proof -
  have 1: "(cpc (callers s ! j) = La_LoadRunning \<and> running (pool s)
            \<longrightarrow> step (Caller j) s
                = Some (s\<lparr>callers := (callers s)[j := (callers s ! j)\<lparr>cpc := C_Idle,
                      rets := rets (callers s ! j) @ [(Launch, RetInt 0)]\<rparr>]\<rparr>))
          \<and> (cpc (callers s ! j) = Sh_LoadRunning \<and> stack (callers s ! j) = []
               \<and> \<not> running (pool s)
            \<longrightarrow> step (Caller j) s
                = Some (s\<lparr>callers := (callers s)[j := (callers s ! j)\<lparr>cpc := C_Idle,
                      rets := rets (callers s ! j) @ [(Shutdown, RetInt 0)]\<rparr>]\<rparr>))"
    if r: "run sched (boot n k u ps) = Some s" and a: "\<not> aborted s" and j: "j < length (callers s)"
    for sched n k u ps s j
  proof -
    from run_callers_inv [of sync_ok, OF caller_step_sync_ok r boot_sync_ok] j
    have "stack_ok (callers s ! j)" by (simp add: list_all_length sync_ok_def)
    with a j show ?thesis by (auto simp: stack_ok_def ret_def)
  qed
  have 2: "((cpc (hd (callers s)) = C_Idle \<or> cpc (hd (callers s)) = La_LoadRunning)
               \<and> last_ret (hd (callers s)) = Some Launch
             \<longrightarrow> running (pool s))
          \<and> ((cpc (hd (callers s)) = C_Idle \<or> cpc (hd (callers s)) = Sh_LoadRunning)
               \<and> last_ret (hd (callers s)) = Some Shutdown
             \<longrightarrow> \<not> running (pool s))"
    if r: "run sched (boot n k u [p]) = Some s" for sched n k u p s
  proof -
    have "callers (boot n k u [p]) = [new_caller p]"
      "owner_ok (new_caller p) (pool (boot n k u [p]))"
      by (simp_all add: boot_def boot_owner_ok)
    from run_owner_ok [OF r this] obtain c where "callers s = [c]" "owner_ok c (pool s)"
      by blast
    then show ?thesis by (auto simp: owner_ok_def)
  qed
  from 1 2 show ?thesis by blast
qed

theorem launch_and_shutdown_idempotent_witness:
  "run (replicate 8 (Caller 0)) (boot 2 0 0 [[Launch, Launch, Shutdown, Shutdown]])
     = Some twice_launched
   \<and> \<not> aborted twice_launched
   \<and> 0 < length (callers twice_launched)
   \<and> cpc (callers twice_launched ! 0) = La_LoadRunning
   \<and> last_ret (hd (callers twice_launched)) = Some Launch
   \<and> running (pool twice_launched)
   \<and> step (Caller 0) twice_launched
       = Some (twice_launched\<lparr>callers := (callers twice_launched)
             [0 := (callers twice_launched ! 0)\<lparr>cpc := C_Idle,
                rets := rets (callers twice_launched ! 0) @ [(Launch, RetInt 0)]\<rparr>]\<rparr>)
   \<and> map wpc (threads (pool twice_launched))
       = [W_Start, W_Start, W_None, W_None, W_None, W_None, W_None, W_None]"
proof -
  have r: "run (replicate 8 (Caller 0)) (boot 2 0 0 [[Launch, Launch, Shutdown, Shutdown]])
     = Some twice_launched"
    unfolding twice_launched_def twice_boot_def by code_simp
  have a: "\<not> aborted twice_launched"
    and l: "0 < length (callers twice_launched)"
    and pc: "cpc (callers twice_launched ! 0) = La_LoadRunning"
    and pc': "cpc (hd (callers twice_launched)) = La_LoadRunning"
    and lr: "last_ret (hd (callers twice_launched)) = Some Launch"
    and ts: "map wpc (threads (pool twice_launched))
       = [W_Start, W_Start, W_None, W_None, W_None, W_None, W_None, W_None]"
    unfolding twice_launched_def twice_boot_def by code_simp+
  from launch_and_shutdown_idempotent r pc' lr
  have run: "running (pool twice_launched)" by blast
  from launch_and_shutdown_idempotent r a l pc run
  have "step (Caller 0) twice_launched
       = Some (twice_launched\<lparr>callers := (callers twice_launched)
             [0 := (callers twice_launched ! 0)\<lparr>cpc := C_Idle,
                rets := rets (callers twice_launched ! 0) @ [(Launch, RetInt 0)]\<rparr>]\<rparr>)"
    by blast
  with r a l pc lr ts run show ?thesis by simp
qed

lemma second_shutdown_returns:
  "run (replicate 8 (Caller 0) @ replicate 7 (Caller 0) @ replicate 7 (Worker 0)
          @ replicate 7 (Worker 1) @ replicate 4 (Caller 0))
       (boot 2 0 0 [[Launch, Launch, Shutdown, Shutdown]]) = Some twice_stopped
   \<and> cpc (hd (callers twice_stopped)) = Sh_LoadRunning
   \<and> last_ret (hd (callers twice_stopped)) = Some Shutdown
   \<and> \<not> running (pool twice_stopped)
   \<and> map wpc (threads (pool twice_stopped))
       = [W_Exited, W_Exited, W_None, W_None, W_None, W_None, W_None, W_None]
   \<and> run [Caller 0] twice_stopped
       = Some (twice_stopped\<lparr>callers := [(hd (callers twice_stopped))\<lparr>cpc := C_Idle,
             rets := rets (hd (callers twice_stopped)) @ [(Shutdown, RetInt 0)]\<rparr>]\<rparr>)"
  unfolding twice_stopped_def twice_launched_def twice_boot_def by code_simp

subsection \<open>Shutting down with work in the queue\<close>



lemma exit_ok_idx [simp]: "exit_ok (w\<lparr>idx := x\<rparr>) = exit_ok w"
  by (simp add: exit_ok_def)

















subsection \<open>A wake-up that is lost\<close>

lemma parked_worker_cannot_move:
  assumes "worker_parked s"
  shows "mule_thread i (pool s) = None" and "cas_fail i (pool s) = None"
proof -
  from assms have ne: "threads (pool s) \<noteq> []" and w0: "wpc (hd (threads (pool s))) = W_Waiting"
    and q: "WorkerT 0 \<in> set (wake_worker (pool s))"
    and rest: "list_all (\<lambda>w. wpc w = W_None) (tl (threads (pool s)))"
    by (simp_all add: worker_parked_def)
  obtain w ws where ts: "threads (pool s) = w # ws" using ne by (cases "threads (pool s)") auto
  show "mule_thread i (pool s) = None"
  proof (cases i)
    case 0
    with ts w0 q show ?thesis by (simp add: mule_thread_def)
  next
    case (Suc i')
    with ts rest show ?thesis by (auto simp: mule_thread_def list_all_length)
  qed
  show "cas_fail i (pool s) = None"
  proof (cases i)
    case 0
    with ts w0 show ?thesis by (simp add: cas_fail_def)
  next
    case (Suc i')
    with ts rest show ?thesis by (auto simp: cas_fail_def list_all_length)
  qed
qed

lemma step_worker_parked:
  assumes st: "step l s = Some s'" and p: "worker_parked s" and nw: "\<not> is_wake l"
  shows "worker_parked s' \<and> frozen s s'"
proof (cases l)
  case (Caller j)
  from p obtain c where cs: "callers s = [c]"
    by (cases "callers s") (auto simp: worker_parked_def)
  with st Caller obtain c' m' where
    step: "caller_step (Dispatcher 0) (cpc c) c (pool s) = Some (c', m')"
    and s': "s' = s\<lparr>pool := m', callers := [c']\<rparr>"
    by (auto split: if_splits option.splits)
  from p cs have "in_wait_loop (cpc c)" by (simp add: worker_parked_def)
  then show ?thesis using step p cs s'
    by (cases "cpc c") (auto simp: worker_parked_def frozen_def split: if_splits)
next
  case (Worker i)
  with st parked_worker_cannot_move(1) [OF p, of i] show ?thesis by (auto split: if_splits)
next
  case (CasFail i)
  with st parked_worker_cannot_move(2) [OF p, of i] show ?thesis by (auto split: if_splits)
next
  case (Wake i) with nw show ?thesis by simp
next
  case (Timeout j) with st p show ?thesis
    by (auto simp: worker_parked_def frozen_def timeout_def split: if_splits option.splits)
next
  case (Abort j) with st p show ?thesis
    by (auto simp: worker_parked_def frozen_def split: if_splits option.splits)
qed

lemma frozen_refl: "frozen s s"
  by (simp add: frozen_def)

lemma frozen_trans: "frozen s s1 \<Longrightarrow> frozen s1 s' \<Longrightarrow> frozen s s'"
  by (simp add: frozen_def)

lemma run_worker_parked:
  "run ls s = Some s' \<Longrightarrow> worker_parked s \<Longrightarrow> \<not> list_ex is_wake ls \<Longrightarrow>
     worker_parked s' \<and> frozen s s'"
proof (induction ls arbitrary: s)
  case Nil then show ?case by (simp add: frozen_refl)
next
  case (Cons l ls)
  then obtain s1 where 1: "step l s = Some s1" and 2: "run ls s1 = Some s'"
    by (auto split: option.splits)
  from Cons.prems(3) have nw: "\<not> is_wake l" "\<not> list_ex is_wake ls" by simp_all
  from step_worker_parked [OF 1 Cons.prems(2) nw(1)]
  have p1: "worker_parked s1" and f1: "frozen s s1" by simp_all
  from Cons.IH [OF 2 p1 nw(2)] f1 show ?case by (blast intro: frozen_trans)
qed

lemma lost_wakeup_run:
  "run lost_wakeup_schedule lost_wakeup_boot = Some lost_wakeup_state"
  unfolding lost_wakeup_state_def by code_simp

lemma lost_wakeup_parked: "worker_parked lost_wakeup_state"
  unfolding lost_wakeup_state_def by code_simp

text \<open>
  C6 fails on \<^verbatim>\<open>src/mumule.h\<close>, where the worker parks in \<^verbatim>\<open>cnd_wait\<close> (line 119), which has no
  timeout. After \<open>lost_wakeup_schedule\<close> the broadcasts of \<^verbatim>\<open>mule_submit\<close> and of
  \<^verbatim>\<open>mule_synchronize\<close> have both passed before the worker waits. From there on, in every
  schedule in which the worker does not wake up by itself, no kernel call is ever made,
  \<^verbatim>\<open>processed\<close> stays 0 below \<^verbatim>\<open>queued == 1\<close>, the worker stays in \<^verbatim>\<open>cnd_wait\<close>, and the
  calling thread stays in the loop of \<^verbatim>\<open>mule_synchronize\<close>.
\<close>

theorem lost_wakeup_parks_worker_for_good:
  "run lost_wakeup_schedule lost_wakeup_boot = Some lost_wakeup_state
   \<and> (\<forall>sched s'. \<not> list_ex is_wake sched \<and> run sched lost_wakeup_state = Some s'
        \<longrightarrow> klog s' = [] \<and> processed (pool s') = 0 \<and> queued (pool s') = 1
            \<and> wpc (hd (threads (pool s'))) = W_Waiting
            \<and> in_wait_loop (cpc (hd (callers s')))
            \<and> rets (hd (callers s')) = [(Launch, RetInt 0), (Submit 1, RetSize 1)])"
proof -
  have k: "klog lost_wakeup_state = []" and p: "processed (pool lost_wakeup_state) = 0"
    and q: "queued (pool lost_wakeup_state) = 1"
    and r: "rets (hd (callers lost_wakeup_state)) = [(Launch, RetInt 0), (Submit 1, RetSize 1)]"
    unfolding lost_wakeup_state_def by code_simp+
  have "klog s' = [] \<and> processed (pool s') = 0 \<and> queued (pool s') = 1
            \<and> wpc (hd (threads (pool s'))) = W_Waiting
            \<and> in_wait_loop (cpc (hd (callers s')))
            \<and> rets (hd (callers s')) = [(Launch, RetInt 0), (Submit 1, RetSize 1)]"
    if "\<not> list_ex is_wake sched" "run sched lost_wakeup_state = Some s'" for sched s'
    using run_worker_parked [OF that(2) lost_wakeup_parked that(1)] k p q r
    by (simp add: frozen_def worker_parked_def)
  with lost_wakeup_run show ?thesis by blast
qed

theorem lost_wakeup_parks_worker_for_good_witness:
  "run lost_wakeup_schedule lost_wakeup_boot = Some lost_wakeup_state
   \<and> \<not> list_ex is_wake (poll_schedule @ poll_schedule)
   \<and> run (poll_schedule @ poll_schedule) lost_wakeup_state = Some lost_wakeup_state
   \<and> klog lost_wakeup_state = []
   \<and> processed (pool lost_wakeup_state) = 0
   \<and> queued (pool lost_wakeup_state) = 1
   \<and> wpc (hd (threads (pool lost_wakeup_state))) = W_Waiting
   \<and> cpc (hd (callers lost_wakeup_state)) = Sy_Waiting"
proof -
  have n: "\<not> list_ex is_wake (poll_schedule @ poll_schedule)" by code_simp
  have r: "run (poll_schedule @ poll_schedule) lost_wakeup_state = Some lost_wakeup_state"
    unfolding lost_wakeup_state_def by code_simp
  have c: "cpc (hd (callers lost_wakeup_state)) = Sy_Waiting"
    unfolding lost_wakeup_state_def by code_simp
  from lost_wakeup_parks_worker_for_good n r
  have "klog lost_wakeup_state = [] \<and> processed (pool lost_wakeup_state) = 0
      \<and> queued (pool lost_wakeup_state) = 1
      \<and> wpc (hd (threads (pool lost_wakeup_state))) = W_Waiting"
    by blast
  with lost_wakeup_run n r c show ?thesis by simp
qed

text \<open>
  The same state is left as soon as the worker wakes up: a wait with a timeout, as the
  calling thread has (line 202), gives that wake-up.
\<close>

lemma wake_up_completes:
  "run lost_wakeup_schedule lost_wakeup_boot = Some lost_wakeup_state
   \<and> klog (the (run wake_schedule lost_wakeup_state)) = [(0, 1)]
   \<and> processed (pool (the (run wake_schedule lost_wakeup_state))) = 1
   \<and> rets (hd (callers (the (run wake_schedule lost_wakeup_state))))
       = [(Launch, RetInt 0), (Submit 1, RetSize 1), (Synchronize, RetInt 0)]"
  unfolding lost_wakeup_state_def by code_simp

subsection \<open>The thread count\<close>

text \<open>
  C7, as amended. \<^verbatim>\<open>mule_init\<close> stores every thread count as it is given and checks nothing:
  the pool starts with zero counters and not running. A count above \<^verbatim>\<open>mumule_max_threads\<close>
  is met only by \<^verbatim>\<open>mule_launch\<close>, whose first loop then writes past the end of \<^verbatim>\<open>threads[]\<close>
  at its third operation, without having returned.
\<close>

theorem mule_init_accepts_every_thread_count:
  "num_threads (mule_init n k u) = n \<and> \<not> running (mule_init n k u)
   \<and> queued (mule_init n k u) = 0 \<and> processing (mule_init n k u) = 0
   \<and> processed (mule_init n k u) = 0
   \<and> (mumule_max_threads < unat n \<longrightarrow>
        (\<exists>s. run [Caller 0, Caller 0, Caller 0] (boot n k u [Launch # p]) = Some s
           \<and> cpc (hd (callers s)) = C_Undefined \<and> rets (hd (callers s)) = []))"
  by (simp add: mule_init_def boot_def new_caller_def)

theorem mule_init_accepts_every_thread_count_witness:
  "mumule_max_threads < unat (12 :: size_t)
   \<and> num_threads (mule_init 12 0 0) = 12
   \<and> (\<exists>s. run [Caller 0, Caller 0, Caller 0] (boot 12 0 0 [[Launch, Shutdown]]) = Some s
         \<and> cpc (hd (callers s)) = C_Undefined \<and> rets (hd (callers s)) = [])"
proof -
  have h: "mumule_max_threads < unat (12 :: size_t)" by (simp add: mumule_max_threads_def)
  from mule_init_accepts_every_thread_count [of 12 0 0 "[Shutdown]"] h show ?thesis by simp
qed

text \<open>
  C7 as stated fails: \<^verbatim>\<open>mule_init(&mule, 9, w1, NULL)\<close> returns a pool with \<^verbatim>\<open>num_threads == 9\<close>,
  above the maximum of 8; nothing is rejected or asserted. The count is met by
  \<^verbatim>\<open>mule_launch\<close>, which writes past \<^verbatim>\<open>threads[]\<close>.
\<close>

theorem mule_init_nine_threads:
  "num_threads (mule_init 9 0 0) = 9
   \<and> mumule_max_threads < unat (num_threads (mule_init 9 0 0))
   \<and> length (threads (mule_init 9 0 0)) = mumule_max_threads
   \<and> run [Caller 0, Caller 0, Caller 0] nine_boot = Some nine_final
   \<and> cpc (hd (callers nine_final)) = C_Undefined
   \<and> rets (hd (callers nine_final)) = []
   \<and> \<not> aborted nine_final"
  unfolding nine_final_def nine_boot_def by code_simp

subsection \<open>Two workers and a submission in between\<close>

text \<open>
  C1 fails on the code. After \<open>race_schedule\<close> the three calls \<^verbatim>\<open>mule_launch\<close>,
  \<^verbatim>\<open>mule_submit(&mule, 1)\<close> and \<^verbatim>\<open>mule_synchronize\<close> have returned, one item was submitted
  (\<^verbatim>\<open>queued == 1\<close>), and the kernel has been called once, by worker 0 on item 2. Item 1 has
  been claimed by worker 1, which has not called the kernel yet.
\<close>

theorem synchronize_returns_before_item_runs:
  "run race_schedule race_boot = Some race_final
   \<and> rets (hd (callers race_final))
       = [(Launch, RetInt 0), (Submit 1, RetSize 1), (Synchronize, RetInt 0)]
   \<and> queued (pool race_final) = 1
   \<and> klog race_final = [(0, 2)]
   \<and> count_list (map snd (klog race_final)) 1 = 0
   \<and> wpc (threads (pool race_final) ! 1) = W_Kernel
   \<and> w_workitem (threads (pool race_final) ! 1) = 1"
  unfolding race_final_def race_boot_def by code_simp

text \<open>
  C2 fails on the code. After \<open>overrun_schedule\<close>, with no \<^verbatim>\<open>mule_reset\<close> anywhere,
  \<^verbatim>\<open>queued\<close> is 1 while \<^verbatim>\<open>processing\<close> and \<^verbatim>\<open>processed\<close> are 2: item 2, which nobody
  submitted, was claimed and run.
\<close>

theorem processing_overruns_queued:
  "run overrun_schedule overrun_boot = Some overrun_final
   \<and> queued (pool overrun_final) = 1
   \<and> processing (pool overrun_final) = 2
   \<and> processed (pool overrun_final) = 2
   \<and> \<not> processing (pool overrun_final) \<le> queued (pool overrun_final)
   \<and> klog overrun_final = [(0, 2), (1, 1)]
   \<and> rets (hd (callers overrun_final)) = [(Launch, RetInt 0), (Submit 1, RetSize 1)]"
  unfolding overrun_final_def overrun_boot_def by code_simp

text \<open>
  C3 fails on the code. One thread calls \<^verbatim>\<open>mule_launch\<close>, \<^verbatim>\<open>mule_submit(&mule, 1)\<close> and
  \<^verbatim>\<open>mule_synchronize\<close>; no other thread submits. After \<open>race_schedule\<close> \<^verbatim>\<open>mule_synchronize\<close>
  has loaded \<^verbatim>\<open>queued == 1\<close> and \<^verbatim>\<open>processed == 1\<close> and has returned 0, and the two counters
  are equal in the pool. But what \<^verbatim>\<open>processed\<close> counts is the kernel call on item 2, which
  worker 0 claimed past \<^verbatim>\<open>queued\<close>. Item 1, the only item submitted, and submitted before the
  call of \<^verbatim>\<open>mule_synchronize\<close>, is outstanding: worker 1 has claimed it and has not called
  the kernel on it. It does so after \<^verbatim>\<open>mule_synchronize\<close> has returned, and \<^verbatim>\<open>processed\<close>
  becomes 2.
\<close>

theorem synchronize_returns_with_item_in_flight:
  "run race_schedule race_boot = Some race_final
   \<and> length (callers race_final) = 1
   \<and> rets (hd (callers race_final))
       = [(Launch, RetInt 0), (Submit 1, RetSize 1), (Synchronize, RetInt 0)]
   \<and> c_queued (hd (callers race_final)) = 1
   \<and> c_processed (hd (callers race_final)) = 1
   \<and> queued (pool race_final) = 1
   \<and> processed (pool race_final) = 1
   \<and> wpc (threads (pool race_final) ! 1) = W_Kernel
   \<and> w_workitem (threads (pool race_final) ! 1) = 1
   \<and> count_list (map snd (klog race_final)) 1 = 0
   \<and> run [Worker 1, Worker 1] race_final = Some race_late
   \<and> klog race_late = klog race_final @ [(1, 1)]
   \<and> rets (hd (callers race_late)) = rets (hd (callers race_final))
   \<and> queued (pool race_late) = 1
   \<and> processed (pool race_late) = 2"
  unfolding race_late_def race_final_def race_boot_def by code_simp

subsection \<open>Resetting while a worker scans\<close>

text \<open>
  C8 fails on the code. \<open>reset_schedule_before\<close> ends when \<^verbatim>\<open>mule_reset\<close> has returned: the
  three counters are 0 and item 1 of the first submission has run. Then, before and after
  the second \<^verbatim>\<open>mule_submit(&mule, 1)\<close>, the worker runs items 1, 2 and 3: three kernel calls
  after the reset for one item submitted, and \<^verbatim>\<open>processed == 3\<close> above \<^verbatim>\<open>queued == 1\<close> when the
  last \<^verbatim>\<open>mule_synchronize\<close> returns.
\<close>

theorem reset_races_with_worker:
  "run reset_schedule_before reset_boot = Some reset_done
   \<and> rets (hd (callers reset_done))
       = [(Launch, RetInt 0), (Submit 1, RetSize 1), (Synchronize, RetInt 0), (Reset, RetInt 0)]
   \<and> klog reset_done = [(0, 1)]
   \<and> queued (pool reset_done) = 0
   \<and> processing (pool reset_done) = 0
   \<and> processed (pool reset_done) = 0
   \<and> run reset_schedule_after reset_done = Some reset_final
   \<and> rets (hd (callers reset_final))
       = [(Launch, RetInt 0), (Submit 1, RetSize 1), (Synchronize, RetInt 0), (Reset, RetInt 0),
          (Submit 1, RetSize 1), (Synchronize, RetInt 0)]
   \<and> klog reset_final = [(0, 1), (0, 1), (0, 2), (0, 3)]
   \<and> queued (pool reset_final) = 1
   \<and> processing (pool reset_final) = 3
   \<and> processed (pool reset_final) = 3"
  unfolding reset_final_def reset_done_def reset_boot_def by code_simp

subsection \<open>One worker: every item once\<close>

lemma executed_Suc: "executed (Suc n) = executed n @ [(0, of_nat (Suc n))]"
  by (simp add: executed_def)

lemma sync_view_cong:
  "queued m' = queued m \<Longrightarrow> processed m' = processed m \<Longrightarrow> sync_view p c m' = sync_view p c m"
  by (cases p) simp_all

lemma sync_view_upd [simp]:
  "sync_view p c (m\<lparr>processing := x\<rparr>) = sync_view p c m"
  "sync_view p c (m\<lparr>threads := ts\<rparr>) = sync_view p c m"
  "sync_view p c (m\<lparr>mutex := mx\<rparr>) = sync_view p c m"
  "sync_view p c (m\<lparr>wake_worker := ww\<rparr>) = sync_view p c m"
  "sync_view p c (m\<lparr>wake_dispatcher := wd\<rparr>) = sync_view p c m"
  "sync_view p c (m\<lparr>threads_running := tr\<rparr>) = sync_view p c m"
  "sync_view p c (m\<lparr>running := r\<rparr>) = sync_view p c m"
  "sync_view p c (m\<lparr>destroyed := d\<rparr>) = sync_view p c m"
  by (rule sync_view_cong; simp)+

lemma unat_succ:
  fixes a :: size_t
  assumes "a < b"
  shows "unat (a + 1) = Suc (unat a)"
proof -
  from assms have "unat a < unat b" by (simp add: word_less_nat_alt)
  moreover have "unat b < 2 ^ 64" using unsigned_less [of b, where ?'a = nat] by simp
  ultimately have "unat a + unat (1 :: size_t) < 2 ^ LENGTH(64)" by simp
  then have "unat (a + 1) = unat a + unat (1 :: size_t)" by (simp only: unat_add_lem)
  then show ?thesis by simp
qed

lemma thread_step_solo:
  assumes ts: "thread_step me (wpc w) w m = Some (w', m', ev)"
    and inv: "solo c m lg" and hd: "threads m = w # ws"
  shows "solo c (m'\<lparr>threads := w' # ws\<rparr>) (lg @ ev)"
proof (cases "wpc w")
  case W_CAS
  show ?thesis
  proof (cases "processing m = w_processing w")
    case True
    from inv hd W_CAS have lt: "w_processing w < w_queued w" and le: "w_queued w \<le> queued m"
      and wi: "w_workitem w = w_processing w + 1"
      by (simp_all add: solo_def)
    from lt have un: "unat (w_processing w + 1) = Suc (unat (w_processing w))"
      by (rule unat_succ)
    then have nz: "w_processing w + 1 \<noteq> 0" by (metis Zero_not_Suc unat_0)
    from lt have "w_processing w + 1 \<le> w_queued w" by (rule inc_le)
    with le have le1: "w_processing w + 1 \<le> queued m" by (rule order_trans [rotated])
    from ts inv hd W_CAS True wi le1 le nz un show ?thesis
      by (clarsimp simp: solo_def)
  next
    case False
    with ts inv hd W_CAS show ?thesis by (clarsimp simp: solo_def)
  qed
next
  case W_Kernel
  from inv hd W_Kernel have wi: "w_workitem w = processing m" and nz: "processing m \<noteq> 0"
    and ix: "idx w = 0" by (simp_all add: solo_def)
  from nz have "0 < unat (processing m)" by (simp add: unat_gt_0)
  then obtain k where k: "unat (processing m) = Suc k" by (cases "unat (processing m)") auto
  have "(of_nat (Suc k) :: size_t) = processing m" using k by (metis of_nat_unat ucast_id)
  with ts inv hd W_Kernel wi ix k show ?thesis
    by (clarsimp simp: solo_def executed_Suc)
next
  case W_FetchAdd
  from inv hd W_FetchAdd have d: "unat (processed m) + 1 = unat (processing m)"
    by (simp add: solo_def)
  have "unat (processing m) < 2 ^ 64"
    using unsigned_less [of "processing m", where ?'a = nat] by simp
  with d have "unat (processed m) + unat (1 :: size_t) < 2 ^ LENGTH(64)" by simp
  then have "unat (processed m + 1) = unat (processed m) + unat (1 :: size_t)"
    by (simp only: unat_add_lem)
  moreover have "sync_view (cpc c) c (m\<lparr>processed := processed m + 1\<rparr>)"
  proof -
    from inv have sv: "sync_view (cpc c) c m" and pq: "processing m \<le> queued m"
      by (simp_all add: solo_def)
    from pq d have "\<not> queued m \<le> processed m" by (simp add: word_le_nat_alt)
    with sv show ?thesis by (cases "cpc c") simp_all
  qed
  ultimately show ?thesis using ts inv hd W_FetchAdd d
    by (clarsimp simp: solo_def split: if_splits)
next
  case W_LoadProcessing
  with ts inv hd show ?thesis
    by (auto simp: solo_def split: if_splits)
qed (use ts inv hd in \<open>clarsimp simp: solo_def split: if_splits\<close>)+

lemma solo_quenched:
  assumes "solo c m lg" and "queued m \<le> processed m"
  shows "processed m = queued m \<and> processing m = queued m
       \<and> inflight (wpc (hd (threads m))) = 0 \<and> lg = executed (unat (queued m))"
proof -
  from assms(1) have pq: "processing m \<le> queued m"
    and d: "unat (processed m) + inflight (wpc (hd (threads m))) = unat (processing m)"
    and l: "lg = executed (unat (processing m) - (if wpc (hd (threads m)) = W_Kernel then 1 else 0))"
    by (simp_all add: solo_def)
  from pq assms(2) d have "unat (processed m) = unat (queued m) \<and> unat (processing m) = unat (queued m)
      \<and> inflight (wpc (hd (threads m))) = 0"
    by (simp add: word_le_nat_alt)
  moreover from this have "wpc (hd (threads m)) \<noteq> W_Kernel" by auto
  ultimately show ?thesis using l by (simp add: word_unat_eq_iff)
qed

lemma pendN_enter:
  "pendN (enter k (c\<lparr>prog := ks\<rparr>)) = pendN_call k + sum_list (map pendN_call ks)"
  by (cases k) (simp_all add: pendN_def)

lemma assign_idx_one: "assign_idx (Suc 0) (w # ws) = w\<lparr>idx := 0\<rparr> # ws"
proof -
  have "map (\<lambda>(i, t). if i < Suc 0 then t\<lparr>idx := of_nat i\<rparr> else t) (enumerate (Suc 0) ws) = ws"
    by (induction ws rule: rev_induct) (auto simp: enumerate_append_eq)
  then show ?thesis by (simp add: assign_idx_def)
qed

lemma worker_view_mono:
  "worker_view p w m \<Longrightarrow> queued m \<le> q' \<Longrightarrow> worker_view p w (m\<lparr>queued := q'\<rparr>)"
  by (cases p) auto

lemma dead_inflight: "dead p \<Longrightarrow> inflight p = 0 \<and> p \<noteq> W_Kernel"
  by (cases p) simp_all

lemma worker_view_upd [simp]:
  "worker_view p w (m\<lparr>threads := ts\<rparr>) = worker_view p w m"
  "worker_view p w (m\<lparr>mutex := mx\<rparr>) = worker_view p w m"
  "worker_view p w (m\<lparr>wake_worker := ww\<rparr>) = worker_view p w m"
  "worker_view p w (m\<lparr>wake_dispatcher := wd\<rparr>) = worker_view p w m"
  "worker_view p w (m\<lparr>running := r\<rparr>) = worker_view p w m"
  "worker_view p w (m\<lparr>destroyed := d\<rparr>) = worker_view p w m"
  "worker_view p (w\<lparr>idx := i\<rparr>) m = worker_view p w m"
  by (cases p; simp)+

lemmas solo_simps = solo_def ret_def stack_ok_def no_reset_def pendN_def

lemma caller_step_solo:
  assumes cs: "caller_step me (cpc c) c m = Some (c', m')" and inv: "solo c m lg"
    and hd: "threads m = w # ws"
  shows "solo c' m' lg"
proof (cases "cpc c")
  case C_Idle
  with cs obtain k ks where p: "prog c = k # ks" and c': "c' = enter k (c\<lparr>prog := ks\<rparr>)"
    and m': "m' = m" by (auto split: list.splits)
  show ?thesis using inv hd C_Idle p unfolding c' m'
    by (cases k) (clarsimp simp: solo_simps)+
next
  case (Sub_FetchAdd n)
  from inv Sub_FetchAdd have "unat (queued m) + unat n < 2 ^ LENGTH(64)"
    by (simp add: solo_def pendN_def)
  then have un: "unat (queued m + n) = unat (queued m) + unat n"
    by (simp only: unat_add_lem)
  then have le: "queued m \<le> queued m + n" by (simp add: word_le_nat_alt)
  from inv have "processing m \<le> queued m" by (simp add: solo_def)
  from this le have ple: "processing m \<le> queued m + n" by (rule order_trans)
  from inv have "worker_view (wpc (hd (threads m))) (hd (threads m)) m" by (simp add: solo_def)
  from worker_view_mono [OF this le]
  have wv: "worker_view (wpc w) w (m\<lparr>queued := queued m + n\<rparr>)" using hd by simp
  from cs inv hd Sub_FetchAdd un ple wv show ?thesis
    by (clarsimp simp: solo_simps)
next
  case La_Assign
  with cs inv hd show ?thesis
    by (clarsimp simp: solo_simps mumule_max_threads_def assign_idx_one split: if_splits)
next
  case (La_Create i)
  show ?thesis
  proof (cases i)
    case 0
    with inv hd La_Create have "dead (wpc w)" by (simp add: solo_def)
    from dead_inflight [OF this] cs inv hd La_Create 0 show ?thesis
      by (clarsimp simp: solo_simps)
  next
    case (Suc i')
    with cs inv hd La_Create show ?thesis
      by (clarsimp simp: solo_simps split: list.splits)
  qed
next
  case (Sh_Join i)
  show ?thesis
  proof (cases i)
    case 0
    with cs inv hd Sh_Join show ?thesis
      by (clarsimp simp: solo_simps split: if_splits)
  next
    case (Suc i')
    with cs inv hd Sh_Join show ?thesis
      by (clarsimp simp: solo_simps split: list.splits)
  qed
next
  case Sy_LoadProcessed
  with cs inv hd show ?thesis
    by (clarsimp simp: solo_simps not_less split: if_splits)
next
  case Sy_Unlock
  with cs inv hd show ?thesis
    by (clarsimp simp: solo_simps split: list.splits)
next
  case La_LoadRunning
  with cs inv hd show ?thesis
    by (clarsimp simp: solo_simps split: if_splits list.splits)
next
  case Sh_LoadRunning
  with cs inv hd show ?thesis
    by (clarsimp simp: solo_simps split: if_splits list.splits)
qed (use cs inv hd in \<open>clarsimp simp: solo_simps split: if_splits list.splits\<close>)+

lemma solo_threads: "solo c m lg \<Longrightarrow> \<exists>w ws. threads m = w # ws"
  by (cases "threads m") (simp_all add: solo_def)

lemma mule_thread_solo:
  assumes mt: "mule_thread i m = Some (m', ev)" and inv: "solo c m lg"
  shows "solo c m' (lg @ ev)"
proof -
  from solo_threads [OF inv] obtain w ws where hd: "threads m = w # ws" by blast
  show ?thesis
  proof (cases i)
    case 0
    with mt hd obtain w' m1 where ts: "thread_step (WorkerT 0) (wpc w) w m = Some (w', m1, ev)"
      and m': "m' = m1\<lparr>threads := (threads m1)[0 := w']\<rparr>"
      by (auto simp: mule_thread_def split: option.splits)
    from thread_step_frame [OF ts] hd have "threads m1 = w # ws" by simp
    with m' have "m' = m1\<lparr>threads := w' # ws\<rparr>" by simp
    with thread_step_solo [OF ts inv hd] show ?thesis by simp
  next
    case (Suc i')
    from inv hd have "list_all (\<lambda>w. wpc w = W_None) ws" by (simp add: solo_def)
    with mt hd Suc show ?thesis
      by (auto simp: mule_thread_def list_all_length split: if_splits)
  qed
qed

lemma cas_fail_solo:
  assumes cf: "cas_fail i m = Some m'" and inv: "solo c m lg"
  shows "solo c m' lg"
proof -
  from solo_threads [OF inv] obtain w ws where hd: "threads m = w # ws" by blast
  show ?thesis
  proof (cases i)
    case 0
    with cf inv hd show ?thesis
      by (clarsimp simp: cas_fail_def solo_def split: if_splits)
  next
    case (Suc i')
    from inv hd have "list_all (\<lambda>w. wpc w = W_None) ws" by (simp add: solo_def)
    with cf hd Suc show ?thesis
      by (auto simp: cas_fail_def list_all_length split: if_splits)
  qed
qed

lemma step_solo_config:
  assumes st: "step l s = Some s'" and inv: "solo_config s"
  shows "solo_config s'"
proof -
  from inv obtain c where cs: "callers s = [c]" and so: "solo c (pool s) (klog s)"
    by (cases "callers s") (auto simp: solo_config_def)
  from solo_threads [OF so] obtain w ws where hd: "threads (pool s) = w # ws" by blast
  show ?thesis
  proof (cases l)
    case (Caller j)
    with st cs obtain c' m' where
      step: "caller_step (Dispatcher 0) (cpc c) c (pool s) = Some (c', m')"
      and s': "s' = s\<lparr>pool := m', callers := [c']\<rparr>"
      by (auto split: if_splits option.splits)
    from caller_step_solo [OF step so hd] s' show ?thesis by (simp add: solo_config_def)
  next
    case (Worker i)
    with st obtain m' ev where mt: "mule_thread i (pool s) = Some (m', ev)"
      and s': "s' = s\<lparr>pool := m', klog := klog s @ ev\<rparr>"
      by (auto split: if_splits option.splits)
    from mule_thread_solo [OF mt so] s' cs show ?thesis by (simp add: solo_config_def)
  next
    case (CasFail i)
    with st obtain m' where cf: "cas_fail i (pool s) = Some m'" and s': "s' = s\<lparr>pool := m'\<rparr>"
      by (auto split: if_splits option.splits)
    from cas_fail_solo [OF cf so] s' cs show ?thesis by (simp add: solo_config_def)
  next
    case (Wake i)
    with st so cs show ?thesis
      by (clarsimp simp: wake_def solo_config_def solo_def split: if_splits)
  next
    case (Timeout j)
    with st so cs show ?thesis
      by (clarsimp simp: timeout_def solo_config_def solo_def split: if_splits)
  next
    case (Abort j)
    with st so cs show ?thesis
      by (clarsimp simp: solo_config_def split: if_splits)
  qed
qed

lemma run_solo_config: "run ls s = Some s' \<Longrightarrow> solo_config s \<Longrightarrow> solo_config s'"
proof (induction ls arbitrary: s)
  case Nil then show ?case by simp
next
  case (Cons l ls)
  then show ?case by (auto split: option.splits dest: step_solo_config)
qed

lemma boot_solo_config:
  assumes "Reset \<notin> set p" and "sum_list (map pendN_call p) < 2 ^ 64"
  shows "solo_config (boot 1 k u [p])"
  using assms
  by (simp add: solo_config_def solo_def boot_def mule_init_def new_caller_def no_reset_def
      stack_ok_def pendN_def last_ret_def zero_thread_def executed_def mumule_max_threads_def
      list_all_iff)

text \<open>
  With one worker and one calling thread that never resets, and fewer than \<open>2 ^ 64\<close> items
  submitted in all, whatever the schedule: \<^verbatim>\<open>processed <= processing <= queued\<close>; the
  kernel has been called on the items 1, 2, ... up to \<^verbatim>\<open>processing\<close> (less the one claimed
  and not yet run), in order, once each, by worker 0; and when \<^verbatim>\<open>mule_synchronize\<close> has
  returned and the thread is between calls, \<^verbatim>\<open>processed == queued\<close> and the kernel has been
  called on every item from 1 to \<^verbatim>\<open>queued\<close> exactly once. The race of the two-worker
  schedules above needs a second worker.
\<close>

lemma one_worker_runs_each_item_once:
  assumes r: "run sched (boot 1 k u [p]) = Some s"
    and nr: "Reset \<notin> set p" and small: "sum_list (map pendN_call p) < 2 ^ 64"
  shows "processed (pool s) \<le> processing (pool s) \<and> processing (pool s) \<le> queued (pool s)
     \<and> klog s = executed (unat (processing (pool s))
                    - (if wpc (hd (threads (pool s))) = W_Kernel then 1 else 0))
     \<and> (cpc (hd (callers s)) = C_Idle \<and> last_ret (hd (callers s)) = Some Synchronize
          \<longrightarrow> processed (pool s) = queued (pool s) \<and> klog s = executed (unat (queued (pool s))))"
proof -
  from run_solo_config [OF r boot_solo_config [OF nr small]]
  have so: "solo (hd (callers s)) (pool s) (klog s)" by (simp add: solo_config_def)
  then have a: "processing (pool s) \<le> queued (pool s)"
    and b: "unat (processed (pool s)) + inflight (wpc (hd (threads (pool s))))
            = unat (processing (pool s))"
    and c: "klog s = executed (unat (processing (pool s))
                    - (if wpc (hd (threads (pool s))) = W_Kernel then 1 else 0))"
    and d: "sync_view (cpc (hd (callers s))) (hd (callers s)) (pool s)"
    by (simp_all add: solo_def)
  from b have e: "processed (pool s) \<le> processing (pool s)" by (simp add: word_le_nat_alt)
  have "processed (pool s) = queued (pool s) \<and> klog s = executed (unat (queued (pool s)))"
    if "cpc (hd (callers s)) = C_Idle" "last_ret (hd (callers s)) = Some Synchronize"
    using solo_quenched [OF so] d that by simp
  with a c e show ?thesis by blast
qed

end
